theory Spec2Isabelle
  imports Main
begin

section \<open>Strings\<close>

text \<open>
  A JavaScript string is modelled as a \<^typ>\<open>string\<close>: one \<^typ>\<open>char\<close> per code unit, for code
  units below 256. The characters that the regular expression class \<open>\s\<close> and
  \<open>String.prototype.trim\<close> treat as white space in that range are tab, line feed, vertical
  tab, form feed, carriage return, space and the no-break space.
\<close>

definition TAB :: char where
  "TAB = CHR 0x09"

definition LF :: char where
  "LF = CHR 0x0A"

definition CR :: char where
  "CR = CHR 0x0D"

definition SPC :: char where
  "SPC = CHR 0x20"

definition is_space :: "char \<Rightarrow> bool" where
  "is_space c \<longleftrightarrow> c \<in> set [CHR 0x09, CHR 0x0A, CHR 0x0B, CHR 0x0C, CHR 0x0D, CHR 0x20, CHR 0xA0]"

text \<open>\<open>s.trim()\<close>.\<close>

definition trim :: "string \<Rightarrow> string" where
  "trim s = rev (dropWhile is_space (rev (dropWhile is_space s)))"

text \<open>\<open>s.replace(/\t/g, r)\<close>.\<close>

definition replace_tabs :: "string \<Rightarrow> string \<Rightarrow> string" where
  "replace_tabs r s = concat (map (\<lambda>c. if c = TAB then r else [c]) s)"

text \<open>\<open>line.match(/^(\s*)/)[1]\<close>: the longest white-space prefix; the match never fails.\<close>

definition leading_ws :: "string \<Rightarrow> string" where
  "leading_ws line = takeWhile is_space line"

text \<open>\<open>s.startsWith(k)\<close> and \<open>s.includes(k)\<close>.\<close>

fun startsWith :: "string \<Rightarrow> string \<Rightarrow> bool" where
  "startsWith s [] = True"
| "startsWith [] (k # ks) = False"
| "startsWith (c # cs) (k # ks) = (c = k \<and> startsWith cs ks)"

fun includes_str :: "string \<Rightarrow> string \<Rightarrow> bool" where
  "includes_str [] k = (k = [])"
| "includes_str (c # cs) k = (startsWith (c # cs) k \<or> includes_str cs k)"

text \<open>
  \<open>s.toLowerCase()\<close> on code units below 256: the letters A to Z and the accented capitals
  of Latin-1 (0xC0 to 0xDE, the multiplication sign 0xD7 apart) move up by 32.
\<close>

definition lower_char :: "char \<Rightarrow> char" where
  "lower_char c =
     (let n = (of_char c :: nat)
      in if (65 \<le> n \<and> n \<le> 90) \<or> (192 \<le> n \<and> n \<le> 222 \<and> n \<noteq> 215)
         then char_of (n + 32) else c)"

definition toLowerCase :: "string \<Rightarrow> string" where
  "toLowerCase s = map lower_char s"

text \<open>\<open>s.split(' ')\<close> for a separator character, and \<open>lines.join(sep)\<close>.\<close>

definition push_char :: "char \<Rightarrow> string list \<Rightarrow> string list" where
  "push_char c ls = (case ls of [] \<Rightarrow> [[c]] | l # rest \<Rightarrow> (c # l) # rest)"

fun split_on :: "char \<Rightarrow> string \<Rightarrow> string list" where
  "split_on d [] = [[]]"
| "split_on d (c # cs) = (if c = d then [] # split_on d cs else push_char c (split_on d cs))"

fun join_with :: "string \<Rightarrow> string list \<Rightarrow> string" where
  "join_with sep [] = []"
| "join_with sep [x] = x"
| "join_with sep (x # y # rest) = x @ sep @ join_with sep (y # rest)"

text \<open>\<open>s.split(/\r?\n/)\<close>: a line feed, or a carriage return with the line feed after it, ends a line.\<close>

fun split_lines :: "string \<Rightarrow> string list" where
  "split_lines [] = [[]]"
| "split_lines [c] = (if c = LF then [[], []] else [[c]])"
| "split_lines (c # d # cs) =
     (if c = LF then [] # split_lines (d # cs)
      else if c = CR \<and> d = LF then [] # split_lines cs
      else push_char c (split_lines (d # cs)))"

text \<open>\<open>'  '.repeat(n)\<close>.\<close>

definition indent_str :: "nat \<Rightarrow> string" where
  "indent_str n = concat (replicate n ''  '')"

text \<open>
  Code-unit order on strings. \<open>a.localeCompare(b)\<close> agrees with it on the ids the program
  mints (\<open>root\<close> and \<open>task_\<close> followed by decimal digits): such ids differ first at a letter
  or at a digit, or one is a prefix of the other.
\<close>

fun str_le :: "string \<Rightarrow> string \<Rightarrow> bool" where
  "str_le [] b = True"
| "str_le (x # a) [] = False"
| "str_le (x # a) (y # b) =
     ((of_char x :: nat) < of_char y \<or> ((of_char x :: nat) = of_char y \<and> str_le a b))"

text \<open>
  \<open>Array.prototype.sort\<close> with a comparator is stable: the list is sorted by insertion,
  an element going before the first one that is strictly greater.
\<close>

fun insert_by :: "('a \<Rightarrow> 'a \<Rightarrow> bool) \<Rightarrow> 'a \<Rightarrow> 'a list \<Rightarrow> 'a list" where
  "insert_by le x [] = [x]"
| "insert_by le x (y # ys) = (if le x y then x # y # ys else y # insert_by le x ys)"

definition sort_by :: "('a \<Rightarrow> 'a \<Rightarrow> bool) \<Rightarrow> 'a list \<Rightarrow> 'a list" where
  "sort_by le xs = foldr (insert_by le) xs []"

text \<open>\<open>map[key] = value\<close>: an existing key keeps its place.\<close>

fun map_set :: "string \<Rightarrow> 'v \<Rightarrow> (string \<times> 'v) list \<Rightarrow> (string \<times> 'v) list" where
  "map_set k v [] = [(k, v)]"
| "map_set k v ((k', v') # rest) = (if k' = k then (k, v) # rest else (k', v') # map_set k v rest)"

section \<open>Outline parser: indentation (app.js)\<close>

text \<open>
  \<^verbatim>\<open>
  function getIndentLevel(line) {
    const match = line.match(/^(\s*)/);
    if (!match) return 0;
    const spaces = match[1].replace(/\t/g, '    ');
    return Math.floor(spaces.length / 2);
  }
  \<close>
\<close>

definition getIndentLevel :: "string \<Rightarrow> nat" where
  "getIndentLevel line = length (replace_tabs ''    '' (leading_ws line)) div 2"

section \<open>Classifier (app.js)\<close>

text \<open>The constant \<open>KEYWORD_GROUPS\<close>; \<open>Object.entries\<close> lists it in declaration order.\<close>

definition KEYWORD_GROUPS :: "(string \<times> string list) list" where
  "KEYWORD_GROUPS =
    [(''Design'', [''design'', ''ui'', ''ux'', ''mockup'', ''prototype'', ''wireframe'', ''sketch'']),
     (''Development'', [''code'', ''develop'', ''build'', ''implement'', ''program'', ''create'', ''api'']),
     (''Testing'', [''test'', ''qa'', ''verify'', ''validate'', ''debug'', ''check'']),
     (''Documentation'', [''document'', ''write'', ''readme'', ''guide'', ''manual'', ''tutorial'']),
     (''Deployment'', [''deploy'', ''release'', ''publish'', ''launch'', ''production''])]"

text \<open>
  \<^verbatim>\<open>
  function detectKeyword(text) {
    const lower = text.toLowerCase();
    for (const [group, keywords] of Object.entries(KEYWORD_GROUPS)) {
      if (keywords.some(kw => lower.includes(kw))) return group;
    }
    return 'Other';
  }
  \<close>
\<close>

fun detect_loop :: "(string \<times> string list) list \<Rightarrow> string \<Rightarrow> string" where
  "detect_loop [] lower = ''Other''"
| "detect_loop ((grp, keywords) # rest) lower =
     (if list_ex (\<lambda>kw. includes_str lower kw) keywords then grp else detect_loop rest lower)"

definition detectKeyword :: "string \<Rightarrow> string" where
  "detectKeyword text = detect_loop KEYWORD_GROUPS (toLowerCase text)"

text \<open>
  The specification's reading of a match: a keyword is a case-insensitive substring of the
  text when the text holds a run of characters that equals the keyword character by
  character, a capital letter and its small letter counting as the same character. The
  letters are listed; nothing here is taken from \<open>toLowerCase\<close>.
\<close>

definition capitals :: string where
  "capitals = ''ABCDEFGHIJKLMNOPQRSTUVWXYZ''"

definition smalls :: string where
  "smalls = ''abcdefghijklmnopqrstuvwxyz''"

definition same_letter :: "char \<Rightarrow> char \<Rightarrow> bool" where
  "same_letter c d \<longleftrightarrow> c = d \<or> (c, d) \<in> set (zip capitals smalls) \<or> (d, c) \<in> set (zip capitals smalls)"

definition ci_substring :: "string \<Rightarrow> string \<Rightarrow> bool" where
  "ci_substring kw text \<longleftrightarrow> (\<exists>p m t. text = p @ m @ t \<and> list_all2 same_letter m kw)"

definition kw_match :: "string \<Rightarrow> string list \<Rightarrow> bool" where
  "kw_match text keywords \<longleftrightarrow> (\<exists>kw \<in> set keywords. ci_substring kw text)"

section \<open>Documents: nodes and edges of the vis.js data sets\<close>

text \<open>
  A node item carries the fields that the program writes. A field that an item may lack
  (or hold as \<open>undefined\<close>) is an option. The shape is \<open>'dot'\<close> for a container and
  \<open>'box'\<close> for a leaf. In the font, \<open>multi\<close> is \<open>Some True\<close> for \<open>'html'\<close> and
  \<open>Some False\<close> for \<open>false\<close>.
\<close>

datatype shape = Dot | Box

record font =
  f_size :: "int option"
  f_face :: "string option"
  f_bold :: "bool option"
  f_multi :: "bool option"

record gnode =
  n_id :: string
  n_label :: string
  n_title :: "string option"
  n_originalText :: "string option"
  n_level :: int
  n_color :: "string option"
  n_font :: "font option"
  n_shape :: shape
  n_size :: "int option"
  n_margin :: "int option"
  n_borderWidth :: "int option"
  n_widthConstraint :: "int option"

record gedge =
  e_from :: string
  e_to :: string
  e_width :: int
  e_color :: "string option"

datatype js_error = TypeError | RangeError | DuplicateId

text \<open>
  The operations of a vis.js \<open>DataSet\<close> that the program calls, on the list of items in
  insertion order: \<open>get(id)\<close> returns the item or null; \<open>add(item)\<close> throws when the id is
  taken; \<open>remove(ids)\<close> deletes the items with these ids from this data set only;
  \<open>update\<close> merges fields into the item with the given id (both call sites have read
  that item before).
\<close>

definition ds_get :: "gnode list \<Rightarrow> string \<Rightarrow> gnode option" where
  "ds_get ns i = find (\<lambda>n. n_id n = i) ns"

definition ds_add :: "gnode list \<Rightarrow> gnode \<Rightarrow> js_error + gnode list" where
  "ds_add ns n = (if ds_get ns (n_id n) \<noteq> None then Inl DuplicateId else Inr (ns @ [n]))"

definition ds_remove :: "gnode list \<Rightarrow> string list \<Rightarrow> gnode list" where
  "ds_remove ns ids = filter (\<lambda>n. n_id n \<notin> set ids) ns"

definition ds_update :: "gnode list \<Rightarrow> string \<Rightarrow> (gnode \<Rightarrow> gnode) \<Rightarrow> gnode list" where
  "ds_update ns i f = map (\<lambda>n. if n_id n = i then f n else n) ns"

text \<open>Decimal digits of a number, for the ids \<open>task_<n>\<close>.\<close>

fun string_of_nat :: "nat \<Rightarrow> string" where
  "string_of_nat n =
     (if n < 10 then [char_of (48 + n)]
      else string_of_nat (n div 10) @ [char_of (48 + n mod 10)])"

declare string_of_nat.simps [simp del]

definition task_id :: "nat \<Rightarrow> string" where
  "task_id n = ''task_'' @ string_of_nat n"

section \<open>Structural editor (keyboard controller)\<close>

record editor =
  nodes :: "gnode list"
  edges :: "gedge list"
  selectedNodeId :: "string option"

text \<open>\<open>!this.selectedNodeId\<close>: null and the empty string are falsy.\<close>

definition no_selection :: "string option \<Rightarrow> bool" where
  "no_selection sel \<longleftrightarrow> sel = None \<or> sel = Some []"

definition empty_font :: font where
  "empty_font = \<lparr>f_size = None, f_face = None, f_bold = None, f_multi = None\<rparr>"

text \<open>\<open>selectedNode.color || '#adb5bd'\<close>.\<close>

definition color_or_default :: "string option \<Rightarrow> string" where
  "color_or_default c = (case c of None \<Rightarrow> ''#adb5bd'' | Some s \<Rightarrow> (if s = [] then ''#adb5bd'' else s))"

definition new_task_node :: "string \<Rightarrow> int \<Rightarrow> string option \<Rightarrow> gnode" where
  "new_task_node newNodeId lvl col =
     \<lparr>n_id = newNodeId, n_label = ''New Task'', n_title = None, n_originalText = None,
      n_level = lvl, n_color = Some (color_or_default col), n_font = None, n_shape = Box,
      n_size = None, n_margin = Some 10, n_borderWidth = Some 2, n_widthConstraint = None\<rparr>"

text \<open>
  \<open>addChildNode\<close>. The clock \<open>Date.now()\<close> is the parameter \<open>now\<close>. The callbacks that
  app.js installs leave the data sets alone, and selecting a node in the view changes
  only \<open>selectedNodeId\<close>.
\<close>

definition addChildNode :: "nat \<Rightarrow> editor \<Rightarrow> js_error + editor" where
  "addChildNode now s =
     (if no_selection (selectedNodeId s) \<or> selectedNodeId s = Some ''root'' then Inr s
      else
        let sel = the (selectedNodeId s);
            newNodeId = task_id now
        in case ds_get (nodes s) sel of
             None \<Rightarrow> Inr s
           | Some selectedNode \<Rightarrow>
               (case ds_add (nodes s) (new_task_node newNodeId (n_level selectedNode + 1) (n_color selectedNode)) of
                  Inl err \<Rightarrow> Inl err
                | Inr nodes1 \<Rightarrow>
                    let edges1 = edges s @ [\<lparr>e_from = sel, e_to = newNodeId, e_width = 2, e_color = None\<rparr>];
                        nodes2 =
                          (if n_shape selectedNode = Box
                           then ds_update nodes1 sel
                                  (\<lambda>n. n\<lparr>n_shape := Dot, n_size := Some 28,
                                         n_font := Some ((case n_font selectedNode of None \<Rightarrow> empty_font | Some f \<Rightarrow> f)
                                                          \<lparr>f_bold := Some True, f_size := Some 20\<rparr>),
                                         n_margin := None\<rparr>)
                           else nodes1)
                    in Inr \<lparr>nodes = nodes2, edges = edges1, selectedNodeId = Some newNodeId\<rparr>))"

text \<open>\<open>addSiblingNode\<close>. Reading \<open>selectedNode.level\<close> of a missing node is a TypeError.\<close>

definition addSiblingNode :: "nat \<Rightarrow> editor \<Rightarrow> js_error + editor" where
  "addSiblingNode now s =
     (if no_selection (selectedNodeId s) \<or> selectedNodeId s = Some ''root'' then Inr s
      else
        let sel = the (selectedNodeId s)
        in case filter (\<lambda>e. e_to e = sel) (edges s) of
             [] \<Rightarrow> Inr s
           | parentEdge # others \<Rightarrow>
               let parentId = e_from parentEdge;
                   newNodeId = task_id now
               in (case ds_get (nodes s) sel of
                     None \<Rightarrow> Inl TypeError
                   | Some selectedNode \<Rightarrow>
                       (case ds_add (nodes s) (new_task_node newNodeId (n_level selectedNode) (n_color selectedNode)) of
                          Inl err \<Rightarrow> Inl err
                        | Inr nodes1 \<Rightarrow>
                            Inr \<lparr>nodes = nodes1,
                                 edges = edges s @ [\<lparr>e_from = parentId, e_to = newNodeId,
                                                    e_width = (if n_level selectedNode = 1 then 3 else 2),
                                                    e_color = None\<rparr>],
                                 selectedNodeId = Some newNodeId\<rparr>)))"

text \<open>
  \<open>getAllDescendants\<close> recurses along the outgoing edges. On a cycle the recursion of the
  source never ends and the call stack overflows: the fuel stands for the stack, and
  \<open>None\<close> for the overflow. A path without a repeated edge has at most
  \<open>length es\<close> edges, so \<open>deleteNode\<close> gives one unit more than that.
\<close>

fun getAllDescendants :: "nat \<Rightarrow> gedge list \<Rightarrow> string \<Rightarrow> string list option"
  and descendants_each :: "nat \<Rightarrow> gedge list \<Rightarrow> gedge list \<Rightarrow> string list option" where
  "getAllDescendants 0 es nodeId = None"
| "getAllDescendants (Suc k) es nodeId = descendants_each k es (filter (\<lambda>e. e_from e = nodeId) es)"
| "descendants_each k es [] = Some []"
| "descendants_each k es (e # children) =
     (case getAllDescendants k es (e_to e) of
        None \<Rightarrow> None
      | Some ds \<Rightarrow>
          (case descendants_each k es children of
             None \<Rightarrow> None
           | Some rest \<Rightarrow> Some (e_to e # ds @ rest)))"

text \<open>
  \<open>deleteNode\<close>. The only removal is \<open>this.networkData.nodes.remove(nodesToDelete)\<close>; the
  edge data set is read, never written.
\<close>

definition deleteNode :: "editor \<Rightarrow> js_error + editor" where
  "deleteNode s =
     (if no_selection (selectedNodeId s) \<or> selectedNodeId s = Some ''root'' then Inr s
      else
        let sel = the (selectedNodeId s)
        in case getAllDescendants (Suc (length (edges s))) (edges s) sel of
             None \<Rightarrow> Inl RangeError
           | Some descendants \<Rightarrow>
               let nodesToDelete = descendants @ [sel];
                   parentEdge = find (\<lambda>e. e_to e = sel) (edges s);
                   nodes1 = ds_remove (nodes s) nodesToDelete
               in (case parentEdge of
                     None \<Rightarrow> Inr (s\<lparr>nodes := nodes1, selectedNodeId := None\<rparr>)
                   | Some pe \<Rightarrow>
                       let parentId = e_from pe;
                           parentChildren = filter (\<lambda>e. e_from e = parentId) (edges s)
                       in if length parentChildren = 0 \<and> parentId \<noteq> ''root''
                          then (case ds_get nodes1 parentId of
                                  None \<Rightarrow> Inl TypeError
                                | Some parentNode \<Rightarrow>
                                    Inr (s\<lparr>nodes := ds_update nodes1 parentId
                                              (\<lambda>n. n\<lparr>n_shape := Box, n_size := None,
                                                     n_font := Some ((case n_font parentNode of None \<Rightarrow> empty_font | Some f \<Rightarrow> f)
                                                                      \<lparr>f_bold := Some False, f_size := Some 16\<rparr>),
                                                     n_margin := Some 10\<rparr>),
                                           selectedNodeId := None\<rparr>))
                          else Inr (s\<lparr>nodes := nodes1, selectedNodeId := None\<rparr>)))"

section \<open>Outline parser: the tree builder (app.js)\<close>

text \<open>
  \<open>parseHierarchicalTasks\<close> builds the tree by mutation: a task object is pushed onto its
  parent's \<open>children\<close> array at once and receives its own children later, through the
  reference that the stack holds. The model keeps the task objects in a store, a list
  indexed by allocation order; a reference is an index. Cell 0 is the sentinel
  \<open>{ level: -1, children: hierarchy }\<close>.
\<close>

record task_obj =
  o_text :: string
  o_level :: int
  o_children :: "nat list"

text \<open>
  \<open>while (stack.length > 1 && stack[stack.length - 1].level >= level) stack.pop()\<close>;
  the stack is held as its top and the entries below.
\<close>

fun pop_stack :: "task_obj list \<Rightarrow> int \<Rightarrow> nat \<Rightarrow> nat list \<Rightarrow> nat \<times> nat list" where
  "pop_stack store lvl tp [] = (tp, [])"
| "pop_stack store lvl tp (below # rest) =
     (if o_level (store ! tp) \<ge> lvl then pop_stack store lvl below rest else (tp, below # rest))"

definition parse_line :: "task_obj list \<times> nat \<times> nat list \<Rightarrow> string \<Rightarrow> task_obj list \<times> nat \<times> nat list" where
  "parse_line st rawLine =
     (case st of (store, tp, below) \<Rightarrow>
        let lvl = int (getIndentLevel rawLine);
            text = trim rawLine
        in if text = [] then st
           else
             let task = length store;
                 store1 = store @ [\<lparr>o_text = text, o_level = lvl, o_children = []\<rparr>];
                 (parent, below1) = pop_stack store1 lvl tp below;
                 store2 = store1[parent := (store1 ! parent)\<lparr>o_children := o_children (store1 ! parent) @ [task]\<rparr>]
             in (store2, task, parent # below1))"

text \<open>The outline node that the rest of the program reads.\<close>

datatype task = Task (t_text: string) (t_level: int) (t_children: "task list")

text \<open>
  Reading the finished tree out of the store. A child is allocated after its parent, so
  the depth is below the number of cells, which is the fuel.
\<close>

fun read_task :: "nat \<Rightarrow> task_obj list \<Rightarrow> nat \<Rightarrow> task option"
  and read_tasks :: "nat \<Rightarrow> task_obj list \<Rightarrow> nat list \<Rightarrow> task list option" where
  "read_task 0 store r = None"
| "read_task (Suc k) store r =
     (case read_tasks k store (o_children (store ! r)) of
        None \<Rightarrow> None
      | Some cs \<Rightarrow> Some (Task (o_text (store ! r)) (o_level (store ! r)) cs))"
| "read_tasks k store [] = Some []"
| "read_tasks k store (r # rs) =
     (case read_task k store r of
        None \<Rightarrow> None
      | Some t \<Rightarrow> (case read_tasks k store rs of None \<Rightarrow> None | Some ts \<Rightarrow> Some (t # ts)))"

definition parse_store :: "string \<Rightarrow> task_obj list" where
  "parse_store input =
     fst (foldl parse_line ([\<lparr>o_text = [], o_level = -1, o_children = []\<rparr>], 0, [])
            (filter (\<lambda>l. l \<noteq> []) (split_lines input)))"

definition parseHierarchicalTasks :: "string \<Rightarrow> task list option" where
  "parseHierarchicalTasks input =
     (let store = parse_store input
      in read_tasks (length store) store (o_children (store ! 0)))"

section \<open>Tree to graph (app.js, buildNetworkData)\<close>

definition GROUP_COLORS :: "(string \<times> string) list" where
  "GROUP_COLORS =
     [(''Design'', ''#8ecae6''), (''Development'', ''#219ebc''), (''Testing'', ''#b5179e''),
      (''Documentation'', ''#f4a261''), (''Deployment'', ''#4CAF50''), (''Other'', ''#adb5bd'')]"

text \<open>\<open>GROUP_COLORS[group] || GROUP_COLORS['Other']\<close>.\<close>

definition group_color :: "string \<Rightarrow> string" where
  "group_color g = (case map_of GROUP_COLORS g of None \<Rightarrow> ''#adb5bd'' | Some c \<Rightarrow> c)"

text \<open>The font controls of the page, read by \<open>getFontSettings\<close>.\<close>

record fontSettings =
  fs_family :: string
  fs_size :: int
  fs_bold :: bool
  fs_italic :: bool

text \<open>
  The loop that wraps the words of a leaf. The \<open>break\<close> stands after the \<open>if\<close>, so the loop
  ends as soon as two lines are complete, with the word that did not fit as the current line.
\<close>

fun wrap_words :: "string list \<Rightarrow> string list \<Rightarrow> string \<Rightarrow> string list \<times> string" where
  "wrap_words [] lines currentLine = (lines, currentLine)"
| "wrap_words (word # rest) lines currentLine =
     (let candidate = trim (currentLine @ '' '' @ word);
          lines1 = (if length candidate \<le> 20 then lines
                    else if currentLine \<noteq> [] then lines @ [currentLine] else lines);
          current1 = (if length candidate \<le> 20 then candidate else word)
      in if length lines1 \<ge> 2 then (lines1, current1) else wrap_words rest lines1 current1)"

text \<open>
  The label of a leaf. When no line was produced, \<open>lines[lines.length - 1]\<close> is
  \<open>undefined\<close> and \<open>lastLine.substring\<close> throws.
\<close>

definition leafLabel :: "string \<Rightarrow> js_error + string" where
  "leafLabel text =
     (let words = split_on SPC text;
          (lines0, currentLine) = wrap_words words [] [];
          lines = (if currentLine \<noteq> [] \<and> length lines0 < 3 then lines0 @ [currentLine] else lines0)
      in if length words > length (split_on SPC (join_with '' '' lines))
         then (if lines = [] then Inl TypeError
               else Inr (join_with [LF]
                      (butlast lines @ [take (length (last lines) - 3) (last lines) @ ''...''])))
         else Inr (join_with [LF] (take 3 lines)))"

text \<open>The label of a node with children.\<close>

definition containerLabel :: "string \<Rightarrow> string" where
  "containerLabel text = (if length text > 40 then take 37 text @ ''...'' else text)"

record graph =
  g_nodes :: "gnode list"
  g_edges :: "gedge list"
  g_nodeId :: nat

definition root_node :: "fontSettings \<Rightarrow> gnode" where
  "root_node fs =
     \<lparr>n_id = ''root'', n_label = ''Mind Map'', n_title = Some ''Mind Map'',
      n_originalText = Some ''Mind Map'', n_level = 0, n_color = Some ''#F59E0B'',
      n_font = Some \<lparr>f_size = Some 28, f_face = Some (fs_family fs), f_bold = Some True, f_multi = None\<rparr>,
      n_shape = Dot, n_size = Some 40, n_margin = None, n_borderWidth = None,
      n_widthConstraint = None\<rparr>"

text \<open>
  \<open>processTask(task, parentId, level, parentGroup)\<close>; the arrays \<open>nodes\<close> and \<open>edges\<close> and
  the counter \<open>nodeId\<close> of the enclosing function are the state.
\<close>

fun processTask :: "fontSettings \<Rightarrow> bool \<Rightarrow> task \<Rightarrow> string \<Rightarrow> int \<Rightarrow> string option \<Rightarrow> graph \<Rightarrow> js_error + graph"
  and processTasks :: "fontSettings \<Rightarrow> bool \<Rightarrow> task list \<Rightarrow> string \<Rightarrow> int \<Rightarrow> string option \<Rightarrow> graph \<Rightarrow> js_error + graph" where
  "processTask fs autoGroup (Task text tlevel children) parentId lvl parentGroup g =
     (let taskId = task_id (g_nodeId g);
          grp = (if autoGroup then detectKeyword text
                 else (case parentGroup of None \<Rightarrow> ''Other'' | Some pg \<Rightarrow> (if pg = [] then ''Other'' else pg)));
          hasChildren = (children \<noteq> [])
      in case (if hasChildren then Inr (containerLabel text) else leafLabel text) of
           Inl err \<Rightarrow> Inl err
         | Inr wrapped \<Rightarrow>
             let displayLabel = (if fs_italic fs \<and> \<not> hasChildren then ''<i>'' @ wrapped @ ''</i>'' else wrapped);
                 fontConfig = \<lparr>f_size = Some (if hasChildren then fs_size fs + 4 else fs_size fs),
                               f_face = Some (fs_family fs),
                               f_bold = Some (hasChildren \<or> fs_bold fs),
                               f_multi = Some (\<not> hasChildren)\<rparr>;
                 nodeConfig = \<lparr>n_id = taskId, n_label = displayLabel, n_title = Some text,
                               n_originalText = Some text, n_level = lvl,
                               n_color = Some (group_color grp), n_font = Some fontConfig,
                               n_shape = (if hasChildren then Dot else Box),
                               n_size = (if hasChildren then Some 28 else None),
                               n_margin = (if hasChildren then None else Some 10),
                               n_borderWidth = Some 2,
                               n_widthConstraint = (if hasChildren then None else Some 200)\<rparr>;
                 edge = \<lparr>e_from = parentId, e_to = taskId, e_width = (if lvl = 1 then 3 else 2),
                         e_color = Some (if hasChildren then ''#666'' else ''#999'')\<rparr>;
                 g1 = \<lparr>g_nodes = g_nodes g @ [nodeConfig], g_edges = g_edges g @ [edge],
                       g_nodeId = g_nodeId g + 1\<rparr>
             in processTasks fs autoGroup children taskId (lvl + 1) (Some grp) g1)"
| "processTasks fs autoGroup [] parentId lvl parentGroup g = Inr g"
| "processTasks fs autoGroup (t # ts) parentId lvl parentGroup g =
     (case processTask fs autoGroup t parentId lvl parentGroup g of
        Inl err \<Rightarrow> Inl err
      | Inr g1 \<Rightarrow> processTasks fs autoGroup ts parentId lvl parentGroup g1)"

definition buildNetworkData :: "fontSettings \<Rightarrow> task list \<Rightarrow> bool \<Rightarrow> js_error + graph" where
  "buildNetworkData fs hierarchy autoGroup =
     processTasks fs autoGroup hierarchy ''root'' 1 None
       \<lparr>g_nodes = [root_node fs], g_edges = [], g_nodeId = 0\<rparr>"

section \<open>Graph to outline text (app.js, syncNetworkToTextarea)\<close>

text \<open>
  \<open>buildHierarchyFromNetwork\<close> keeps one object per node id in \<open>nodeMap\<close>; the \<open>children\<close>
  arrays hold references to these objects. The model keeps \<open>nodeMap\<close> as an association
  list in insertion order and a reference as the id of the object.
\<close>

record hnode =
  h_id :: string
  h_text :: string
  h_children :: "string list"
  h_level :: int

text \<open>\<open>node.originalText || node.title || node.label.replace(/\n/g, ' ')\<close>.\<close>

definition node_text :: "gnode \<Rightarrow> string" where
  "node_text n =
     (case n_originalText n of
        Some t \<Rightarrow> if t \<noteq> [] then t
                  else (case n_title n of
                          Some u \<Rightarrow> if u \<noteq> [] then u else map (\<lambda>c. if c = LF then SPC else c) (n_label n)
                        | None \<Rightarrow> map (\<lambda>c. if c = LF then SPC else c) (n_label n))
      | None \<Rightarrow> (case n_title n of
                   Some u \<Rightarrow> if u \<noteq> [] then u else map (\<lambda>c. if c = LF then SPC else c) (n_label n)
                 | None \<Rightarrow> map (\<lambda>c. if c = LF then SPC else c) (n_label n)))"

text \<open>
  \<open>nodeMap\<close> is a plain object keyed by node id. The ids are those the program mints (\<open>root\<close>
  and \<open>task_\<close> followed by digits); an id that names a property inherited from
  \<open>Object.prototype\<close> is outside this model.
\<close>

definition add_hnode :: "gnode \<Rightarrow> (string \<times> hnode) list \<Rightarrow> (string \<times> hnode) list" where
  "add_hnode n m = map_set (n_id n) \<lparr>h_id = n_id n, h_text = node_text n, h_children = [], h_level = n_level n\<rparr> m"

definition link_hnode :: "gedge \<Rightarrow> (string \<times> hnode) list \<Rightarrow> (string \<times> hnode) list" where
  "link_hnode e m =
     (case map_of m (e_from e) of
        None \<Rightarrow> m
      | Some parent \<Rightarrow>
          (case map_of m (e_to e) of
             None \<Rightarrow> m
           | Some child \<Rightarrow>
               if h_id child \<noteq> ''root''
               then map_set (e_from e) (parent\<lparr>h_children := h_children parent @ [e_to e]\<rparr>) m
               else m))"

text \<open>
  The comparator of the sort: by level, then by \<open>a.id.localeCompare(b.id)\<close>. A reference in
  a \<open>children\<close> array always has its object in \<open>nodeMap\<close>.
\<close>

definition child_le :: "(string \<times> hnode) list \<Rightarrow> string \<Rightarrow> string \<Rightarrow> bool" where
  "child_le m a b =
     (case (map_of m a, map_of m b) of
        (Some x, Some y) \<Rightarrow> if h_level x \<noteq> h_level y then h_level x < h_level y else str_le (h_id x) (h_id y)
      | _ \<Rightarrow> True)"

definition sort_children :: "(string \<times> hnode) list \<Rightarrow> (string \<times> hnode) list" where
  "sort_children m =
     map (\<lambda>(k, node). (k, if h_children node \<noteq> [] then node\<lparr>h_children := sort_by (child_le m) (h_children node)\<rparr> else node)) m"

definition hierarchy_map :: "gnode list \<Rightarrow> gedge list \<Rightarrow> (string \<times> hnode) list" where
  "hierarchy_map ns es = sort_children (foldl (\<lambda>m e. link_hnode e m) (foldl (\<lambda>m n. add_hnode n m) [] ns) es)"

text \<open>The value that \<open>buildHierarchyFromNetwork\<close> returns: the children of the root, or nothing.\<close>

definition buildHierarchyFromNetwork :: "gnode list \<Rightarrow> gedge list \<Rightarrow> string list" where
  "buildHierarchyFromNetwork ns es =
     (case map_of (hierarchy_map ns es) ''root'' of None \<Rightarrow> [] | Some r \<Rightarrow> h_children r)"

text \<open>
  \<open>hierarchyToText(hierarchy, indent)\<close>. The recursion follows the references; on a cycle
  the source overflows the stack, which is \<open>None\<close> here. The fuel bounds the depth.
\<close>

fun hierarchyToText :: "nat \<Rightarrow> (string \<times> hnode) list \<Rightarrow> string list \<Rightarrow> nat \<Rightarrow> string option"
  and hierarchyToText_each :: "nat \<Rightarrow> (string \<times> hnode) list \<Rightarrow> string list \<Rightarrow> nat \<Rightarrow> string option" where
  "hierarchyToText 0 m hierarchy indent = None"
| "hierarchyToText (Suc k) m hierarchy indent = hierarchyToText_each k m hierarchy indent"
| "hierarchyToText_each k m [] indent = Some []"
| "hierarchyToText_each k m (r # rest) indent =
     (case map_of m r of
        None \<Rightarrow> None
      | Some node \<Rightarrow>
          (case (if h_children node \<noteq> [] then hierarchyToText k m (h_children node) (indent + 1) else Some []) of
             None \<Rightarrow> None
           | Some below \<Rightarrow>
               (case hierarchyToText_each k m rest indent of
                  None \<Rightarrow> None
                | Some after \<Rightarrow> Some (indent_str indent @ h_text node @ [LF] @ below @ after))))"

text \<open>The text that \<open>syncNetworkToTextarea\<close> writes into the input field.\<close>

definition reconstructText :: "gnode list \<Rightarrow> gedge list \<Rightarrow> string option" where
  "reconstructText ns es =
     map_option trim
       (hierarchyToText (Suc (Suc (length ns))) (hierarchy_map ns es) (buildHierarchyFromNetwork ns es) 0)"

text \<open>One forward pass, the reconstruction of the text, and the second parse.\<close>

definition roundtrip :: "fontSettings \<Rightarrow> bool \<Rightarrow> task list \<Rightarrow> task list option" where
  "roundtrip fs autoGroup hierarchy =
     (case buildNetworkData fs hierarchy autoGroup of
        Inl err \<Rightarrow> None
      | Inr g \<Rightarrow>
          (case reconstructText (g_nodes g) (g_edges g) of
             None \<Rightarrow> None
           | Some text \<Rightarrow> parseHierarchicalTasks text))"

text \<open>The structure of an outline: the texts and the nesting, without the levels.\<close>

datatype outline = Outline string "outline list"

fun outline_of :: "task \<Rightarrow> outline" where
  "outline_of (Task text lvl children) = Outline text (map outline_of children)"

section \<open>Codec: plain-text outline (import-export.js)\<close>

text \<open>
  \<open>exportToPlainText\<close> copies every node into a \<open>Map\<close> with an empty \<open>children\<close> array and
  pushes, for every edge whose two ends are in the map, the child onto the parent.
\<close>

definition add_xnode :: "gnode \<Rightarrow> (string \<times> gnode \<times> string list) list \<Rightarrow> (string \<times> gnode \<times> string list) list" where
  "add_xnode n m = map_set (n_id n) (n, []) m"

definition link_xnode :: "gedge \<Rightarrow> (string \<times> gnode \<times> string list) list \<Rightarrow> (string \<times> gnode \<times> string list) list" where
  "link_xnode e m =
     (case map_of m (e_from e) of
        None \<Rightarrow> m
      | Some (parent, children) \<Rightarrow>
          (case map_of m (e_to e) of
             None \<Rightarrow> m
           | Some child \<Rightarrow> map_set (e_from e) (parent, children @ [e_to e]) m))"

definition export_map :: "gnode list \<Rightarrow> gedge list \<Rightarrow> (string \<times> gnode \<times> string list) list" where
  "export_map ns es = foldl (\<lambda>m e. link_xnode e m) (foldl (\<lambda>m n. add_xnode n m) [] ns) es"

text \<open>
  \<open>buildOutline(node, level)\<close> appends to \<open>output\<close>; the model returns what one call appends.
  The fuel bounds the depth of the recursion, \<open>None\<close> is the stack overflow on a cycle.
\<close>

fun buildOutline :: "nat \<Rightarrow> (string \<times> gnode \<times> string list) list \<Rightarrow> string \<Rightarrow> nat \<Rightarrow> string option"
  and buildOutline_each :: "nat \<Rightarrow> (string \<times> gnode \<times> string list) list \<Rightarrow> string list \<Rightarrow> nat \<Rightarrow> string option" where
  "buildOutline 0 m r lvl = None"
| "buildOutline (Suc k) m r lvl =
     (case map_of m r of
        None \<Rightarrow> None
      | Some (node, children) \<Rightarrow>
          if n_id node = ''root'' then buildOutline_each k m children 0
          else (case buildOutline_each k m children (lvl + 1) of
                  None \<Rightarrow> None
                | Some below \<Rightarrow> Some (indent_str lvl @ n_label node @ [LF] @ below)))"
| "buildOutline_each k m [] lvl = Some []"
| "buildOutline_each k m (c # cs) lvl =
     (case buildOutline k m c lvl of
        None \<Rightarrow> None
      | Some first \<Rightarrow>
          (case buildOutline_each k m cs lvl of None \<Rightarrow> None | Some rest \<Rightarrow> Some (first @ rest)))"

definition export_header :: string where
  "export_header = ''# Mind Map Export'' @ [LF, LF]"

definition exportToPlainText :: "gnode list \<Rightarrow> gedge list \<Rightarrow> js_error + string" where
  "exportToPlainText ns es =
     (let m = export_map ns es
      in case map_of m ''root'' of
           None \<Rightarrow> Inr (export_header @ ''(No data)'')
         | Some rootNode \<Rightarrow>
             (case buildOutline (Suc (length ns)) m ''root'' 0 of
                None \<Rightarrow> Inl RangeError
              | Some body \<Rightarrow> Inr (export_header @ body)))"

text \<open>What an import returns: the node and edge arrays (the metadata bag is empty).\<close>

record imported =
  i_nodes :: "gnode list"
  i_edges :: "gedge list"

definition import_root :: "string \<Rightarrow> gnode" where
  "import_root lbl =
     \<lparr>n_id = ''root'', n_label = lbl, n_title = None, n_originalText = None, n_level = 0,
      n_color = Some ''#F59E0B'',
      n_font = Some \<lparr>f_size = Some 28, f_face = Some ''Inter'', f_bold = Some True, f_multi = None\<rparr>,
      n_shape = Dot, n_size = Some 40, n_margin = None, n_borderWidth = None,
      n_widthConstraint = None\<rparr>"

definition import_node :: "string \<Rightarrow> string \<Rightarrow> int \<Rightarrow> gnode" where
  "import_node i lbl lvl =
     \<lparr>n_id = i, n_label = lbl, n_title = None, n_originalText = None, n_level = lvl,
      n_color = None, n_font = None, n_shape = Box, n_size = None, n_margin = Some 10,
      n_borderWidth = Some 2, n_widthConstraint = None\<rparr>"

text \<open>The stack of \<open>importFromText\<close> holds pairs of an id and a level; its bottom is never popped.\<close>

fun pop_ids :: "int \<Rightarrow> string \<times> int \<Rightarrow> (string \<times> int) list \<Rightarrow> (string \<times> int) \<times> (string \<times> int) list" where
  "pop_ids lvl tp [] = (tp, [])"
| "pop_ids lvl tp (below # rest) =
     (if snd tp \<ge> lvl then pop_ids lvl below rest else (tp, below # rest))"

record text_import =
  ti_nodes :: "gnode list"
  ti_edges :: "gedge list"
  ti_nodeId :: nat
  ti_top :: "string \<times> int"
  ti_below :: "(string \<times> int) list"

definition import_line :: "text_import \<Rightarrow> string \<Rightarrow> text_import" where
  "import_line st line =
     (let lvl = int (length (replace_tabs ''  '' (leading_ws line)) div 2);
          text = trim line
      in if text = [] then st
         else
           let i = task_id (ti_nodeId st);
               (parent, below) = pop_ids lvl (ti_top st) (ti_below st)
           in \<lparr>ti_nodes = ti_nodes st @ [import_node i text (lvl + 1)],
               ti_edges = ti_edges st @ [\<lparr>e_from = fst parent, e_to = i,
                                           e_width = (if lvl = 0 then 3 else 2), e_color = None\<rparr>],
               ti_nodeId = ti_nodeId st + 1,
               ti_top = (i, lvl),
               ti_below = parent # below\<rparr>)"

definition import_lines :: "string \<Rightarrow> string list" where
  "import_lines text = filter (\<lambda>line. trim line \<noteq> [] \<and> \<not> startsWith (trim line) ''#'') (split_lines text)"

definition importFromText :: "string \<Rightarrow> imported option" where
  "importFromText text =
     (let lines = import_lines text
      in if lines = [] then None
         else
           let st = foldl import_line
                      \<lparr>ti_nodes = [import_root ''Mind Map''], ti_edges = [], ti_nodeId = 0,
                       ti_top = (''root'', -1), ti_below = []\<rparr> lines
           in Some \<lparr>i_nodes = ti_nodes st, i_edges = ti_edges st\<rparr>)"

text \<open>
  The labels and the nesting of a document, read from the root along the edges in edge
  order, as the exporters read it.
\<close>

fun label_tree :: "nat \<Rightarrow> (string \<times> gnode \<times> string list) list \<Rightarrow> string \<Rightarrow> outline option"
  and label_forest :: "nat \<Rightarrow> (string \<times> gnode \<times> string list) list \<Rightarrow> string list \<Rightarrow> outline list option" where
  "label_tree 0 m r = None"
| "label_tree (Suc k) m r =
     (case map_of m r of
        None \<Rightarrow> None
      | Some (node, children) \<Rightarrow>
          (case label_forest k m children of
             None \<Rightarrow> None
           | Some cs \<Rightarrow> Some (Outline (n_label node) cs)))"
| "label_forest k m [] = Some []"
| "label_forest k m (c # cs) =
     (case label_tree k m c of
        None \<Rightarrow> None
      | Some t \<Rightarrow> (case label_forest k m cs of None \<Rightarrow> None | Some ts \<Rightarrow> Some (t # ts)))"

definition doc_outline :: "gnode list \<Rightarrow> gedge list \<Rightarrow> outline list option" where
  "doc_outline ns es =
     (case label_tree (Suc (length ns)) (export_map ns es) ''root'' of
        None \<Rightarrow> None
      | Some (Outline lbl children) \<Rightarrow> Some children)"

section \<open>Codec: FreeMind XML import (import-export.js)\<close>

text \<open>
  The document that \<open>DOMParser.parseFromString\<close> returns, as the tree of its elements. On
  markup that does not parse, the browser returns a document that holds a \<open>parsererror\<close>
  element.
\<close>

datatype xml = Elem (tag: string) (attrs: "(string \<times> string) list") (child_elems: "xml list")

text \<open>\<open>xmlDoc.querySelector('parsererror')\<close> finds an element with that name anywhere.\<close>

fun has_tag :: "string \<Rightarrow> xml \<Rightarrow> bool"
  and has_tag_any :: "string \<Rightarrow> xml list \<Rightarrow> bool" where
  "has_tag t (Elem n as ks) = (n = t \<or> has_tag_any t ks)"
| "has_tag_any t [] = False"
| "has_tag_any t (k # ks) = (has_tag t k \<or> has_tag_any t ks)"

text \<open>
  \<open>xmlDoc.querySelector('map > node')\<close>: the first element in document order that is named
  \<open>node\<close> and whose parent element is named \<open>map\<close>.
\<close>

fun query_map_node :: "string \<Rightarrow> xml list \<Rightarrow> xml option" where
  "query_map_node parent [] = None"
| "query_map_node parent (Elem n as ks # rest) =
     (if parent = ''map'' \<and> n = ''node'' then Some (Elem n as ks)
      else (case query_map_node n ks of
              Some r \<Rightarrow> Some r
            | None \<Rightarrow> query_map_node parent rest))"

text \<open>\<open>xmlNode.getAttribute('TEXT') || 'Node'\<close>.\<close>

definition text_attr :: "xml \<Rightarrow> string" where
  "text_attr x = (case map_of (attrs x) ''TEXT'' of None \<Rightarrow> ''Node'' | Some t \<Rightarrow> if t = [] then ''Node'' else t)"

text \<open>
  \<open>parseNode(xmlNode, parentId, level)\<close>; the children are the child elements named
  \<open>node\<close> (\<open>:scope > node\<close>). The parent id of the root is null and is never read.
\<close>

fun parseNode :: "xml \<Rightarrow> string \<Rightarrow> nat \<Rightarrow> graph \<Rightarrow> graph"
  and parseNode_each :: "xml list \<Rightarrow> string \<Rightarrow> nat \<Rightarrow> graph \<Rightarrow> graph" where
  "parseNode (Elem n as ks) parentId lvl g =
     (let text = text_attr (Elem n as ks);
          i = (if lvl = 0 then ''root'' else task_id (g_nodeId g));
          g1 = (if lvl = 0
                then g\<lparr>g_nodes := g_nodes g @ [import_root text]\<rparr>
                else \<lparr>g_nodes = g_nodes g @ [import_node i text (int lvl)],
                      g_edges = g_edges g @ [\<lparr>e_from = parentId, e_to = i,
                                                e_width = (if lvl = 1 then 3 else 2), e_color = None\<rparr>],
                      g_nodeId = g_nodeId g + 1\<rparr>)
      in parseNode_each ks i (lvl + 1) g1)"
| "parseNode_each [] parentId lvl g = g"
| "parseNode_each (k # ks) parentId lvl g =
     (if tag k = ''node'' then parseNode_each ks parentId lvl (parseNode k parentId lvl g)
      else parseNode_each ks parentId lvl g)"

text \<open>
  \<open>importFromFreeMind\<close>, from the parsed document on. \<open>None\<close> is the null that the
  \<open>catch\<close> block returns.
\<close>

definition importFromFreeMind :: "xml \<Rightarrow> imported option" where
  "importFromFreeMind xmlDoc =
     (if has_tag ''parsererror'' xmlDoc then None
      else
        let g0 = \<lparr>g_nodes = [], g_edges = [], g_nodeId = 0\<rparr>;
            g = (case query_map_node (tag xmlDoc) (child_elems xmlDoc) of
                   Some rootNode \<Rightarrow> parseNode rootNode [] 0 g0
                 | None \<Rightarrow> g0)
        in Some \<lparr>i_nodes = g_nodes g, i_edges = g_edges g\<rparr>)"

section \<open>Codec: JSON (import-export.js)\<close>

text \<open>
  JavaScript values as far as the codec meets them; numbers are the integers that the
  program stores. An object is the list of its own properties in insertion order.
\<close>

datatype jsval =
    JUndefined
  | JNull
  | JBool bool
  | JNum int
  | JStr string
  | JArr "jsval list"
  | JObj "(string \<times> jsval) list"

text \<open>
  \<open>JSON.stringify\<close> leaves out the properties of an object whose value is \<open>undefined\<close> and
  writes \<open>null\<close> for an \<open>undefined\<close> element of an array. A JSON text is represented by the
  value that \<open>JSON.parse\<close> reads from it; \<open>to_json v\<close> is that value for the text that
  \<open>JSON.stringify(v)\<close> writes.
\<close>

fun to_json :: "jsval \<Rightarrow> jsval"
  and to_json_props :: "(string \<times> jsval) list \<Rightarrow> (string \<times> jsval) list"
  and to_json_items :: "jsval list \<Rightarrow> jsval list" where
  "to_json (JObj ps) = JObj (to_json_props ps)"
| "to_json (JArr vs) = JArr (to_json_items vs)"
| "to_json JUndefined = JUndefined"
| "to_json JNull = JNull"
| "to_json (JBool b) = JBool b"
| "to_json (JNum n) = JNum n"
| "to_json (JStr s) = JStr s"
| "to_json_props [] = []"
| "to_json_props ((k, v) # ps) = (if v = JUndefined then to_json_props ps else (k, to_json v) # to_json_props ps)"
| "to_json_items [] = []"
| "to_json_items (v # vs) = (if v = JUndefined then JNull else to_json v) # to_json_items vs"

text \<open>A value without \<open>undefined\<close> inside.\<close>

fun defined_val :: "jsval \<Rightarrow> bool"
  and defined_props :: "(string \<times> jsval) list \<Rightarrow> bool"
  and defined_items :: "jsval list \<Rightarrow> bool" where
  "defined_val (JObj ps) = defined_props ps"
| "defined_val (JArr vs) = defined_items vs"
| "defined_val JUndefined = False"
| "defined_val JNull = True"
| "defined_val (JBool b) = True"
| "defined_val (JNum n) = True"
| "defined_val (JStr s) = True"
| "defined_props [] = True"
| "defined_props ((k, v) # ps) = (defined_val v \<and> defined_props ps)"
| "defined_items [] = True"
| "defined_items (v # vs) = (defined_val v \<and> defined_items vs)"

text \<open>Truthiness, and the read of a property (\<open>data.nodes\<close>), which throws on null.\<close>

fun truthy :: "jsval \<Rightarrow> bool" where
  "truthy JUndefined = False"
| "truthy JNull = False"
| "truthy (JBool b) = b"
| "truthy (JNum n) = (n \<noteq> 0)"
| "truthy (JStr s) = (s \<noteq> [])"
| "truthy (JArr vs) = True"
| "truthy (JObj ps) = True"

fun get_prop :: "jsval \<Rightarrow> string \<Rightarrow> js_error + jsval" where
  "get_prop JUndefined k = Inl TypeError"
| "get_prop JNull k = Inl TypeError"
| "get_prop (JObj ps) k = Inr (case map_of ps k of None \<Rightarrow> JUndefined | Some v \<Rightarrow> v)"
| "get_prop v k = Inr JUndefined"

text \<open>\<open>data.metadata || {}\<close>.\<close>

definition metadata_or_empty :: "jsval \<Rightarrow> jsval" where
  "metadata_or_empty md = (if truthy md then md else JObj [])"

text \<open>
  The argument of \<open>exportToJSON\<close>: the node and edge collections are arrays of items, held
  in a \<open>DataSet\<close> (read with \<open>get()\<close>) or given as they are.
\<close>

datatype collection = DataSet "jsval list" | Plain "jsval list"

fun items :: "collection \<Rightarrow> jsval list" where
  "items (DataSet xs) = xs"
| "items (Plain xs) = xs"

record export_data =
  x_nodes :: collection
  x_edges :: collection
  x_metadata :: jsval

text \<open>The object \<open>exportData\<close>; the time stamp \<open>created\<close> is a parameter.\<close>

definition exportData :: "string \<Rightarrow> export_data \<Rightarrow> jsval" where
  "exportData created d =
     JObj [(''version'', JStr ''1.0''), (''format'', JStr ''mindmap-json''), (''created'', JStr created),
           (''nodes'', JArr (items (x_nodes d))), (''edges'', JArr (items (x_edges d))),
           (''metadata'', metadata_or_empty (x_metadata d))]"

text \<open>\<open>exportToJSON\<close>: the JSON text, as the value it denotes.\<close>

definition exportToJSON :: "string \<Rightarrow> export_data \<Rightarrow> jsval" where
  "exportToJSON created d = to_json (exportData created d)"

record json_import =
  j_nodes :: jsval
  j_edges :: jsval
  j_metadata :: jsval

text \<open>
  \<open>importFromJSON\<close>: the argument is the outcome of \<open>JSON.parse\<close>, \<open>None\<close> for a syntax
  error; the result \<open>None\<close> is the null of the \<open>catch\<close> block.
\<close>

definition importFromJSON :: "jsval option \<Rightarrow> json_import option" where
  "importFromJSON parsed =
     (case parsed of
        None \<Rightarrow> None
      | Some data \<Rightarrow>
          (case (get_prop data ''nodes'', get_prop data ''edges'', get_prop data ''metadata'') of
             (Inr ns, Inr es, Inr md) \<Rightarrow>
               if \<not> truthy ns \<or> \<not> truthy es then None
               else Some \<lparr>j_nodes = ns, j_edges = es, j_metadata = metadata_or_empty md\<rparr>
           | _ \<Rightarrow> None))"

section \<open>Generation and example documents\<close>

text \<open>
  \<open>handleGenerate\<close>: the trimmed input is parsed and mapped to a graph, which
  \<open>drawNetwork\<close> hands to the keyboard controller; nothing is selected yet.
\<close>

definition generate :: "fontSettings \<Rightarrow> bool \<Rightarrow> string \<Rightarrow> editor option" where
  "generate fs autoGroup text =
     (let input = trim text
      in if input = [] then None
         else (case parseHierarchicalTasks input of
                 None \<Rightarrow> None
               | Some hierarchy \<Rightarrow>
                   (case buildNetworkData fs hierarchy autoGroup of
                      Inl err \<Rightarrow> None
                    | Inr g \<Rightarrow> Some \<lparr>nodes = g_nodes g, edges = g_edges g, selectedNodeId = None\<rparr>)))"

definition node_ids :: "gnode list \<Rightarrow> string list" where
  "node_ids ns = map n_id ns"

definition edge_ends :: "gedge list \<Rightarrow> (string \<times> string) list" where
  "edge_ends es = map (\<lambda>e. (e_from e, e_to e)) es"

definition shape_of :: "gnode list \<Rightarrow> string \<Rightarrow> shape option" where
  "shape_of ns i = map_option n_shape (ds_get ns i)"

definition example_fonts :: fontSettings where
  "example_fonts = \<lparr>fs_family = ''Inter'', fs_size = 16, fs_bold = False, fs_italic = False\<rparr>"

text \<open>The document of the outline A (B (D), C): A has two children and one grandchild.\<close>

definition family_doc :: editor where
  "family_doc = the (generate example_fonts True (''A'' @ [LF] @ ''  B'' @ [LF] @ ''    D'' @ [LF] @ ''  C''))"

text \<open>The document of the outline A (B): B is the only child of A.\<close>

definition only_child_doc :: editor where
  "only_child_doc = the (generate example_fonts True (''A'' @ [LF] @ ''  B''))"

text \<open>
  A leaf item as \<open>processTask\<close> writes it and the data set returns it: the property
  \<open>size\<close> is present with the value \<open>undefined\<close>.
\<close>

definition leaf_item :: jsval where
  "leaf_item =
     JObj [(''id'', JStr ''task_0''), (''label'', JStr ''A''), (''title'', JStr ''A''),
           (''originalText'', JStr ''A''), (''level'', JNum 1), (''color'', JStr ''#adb5bd''),
           (''font'', JObj [(''size'', JNum 16), (''face'', JStr ''Inter''), (''bold'', JBool False),
                            (''multi'', JStr ''html'')]),
           (''shape'', JStr ''box''), (''size'', JUndefined), (''margin'', JNum 10),
           (''borderWidth'', JNum 2), (''widthConstraint'', JObj [(''maximum'', JNum 200)])]"

definition leaf_export :: export_data where
  "leaf_export =
     \<lparr>x_nodes = DataSet [leaf_item], x_edges = DataSet [],
      x_metadata = JObj [(''layout'', JStr ''hierarchical''), (''autoGroup'', JBool True),
                         (''inputText'', JStr ''A'')]\<rparr>"

definition plain_export :: export_data where
  "plain_export =
     \<lparr>x_nodes = Plain [JObj [(''id'', JStr ''root''), (''label'', JStr ''Mind Map''), (''level'', JNum 0)]],
      x_edges = Plain [], x_metadata = JUndefined\<rparr>"

text \<open>Eleven top-level lines, and the outline nodes they parse to.\<close>

definition flat_tasks :: "string list \<Rightarrow> task list" where
  "flat_tasks texts = map (\<lambda>t. Task t 0 []) texts"

definition eleven_lines :: string where
  "eleven_lines = join_with [LF] [''a'', ''b'', ''c'', ''d'', ''e'', ''f'', ''g'', ''h'', ''i'', ''j'', ''k'']"

definition eleven_tasks :: "task list" where
  "eleven_tasks = flat_tasks [''a'', ''b'', ''c'', ''d'', ''e'', ''f'', ''g'', ''h'', ''i'', ''j'', ''k'']"

definition reordered_tasks :: "task list" where
  "reordered_tasks = flat_tasks [''a'', ''b'', ''k'', ''c'', ''d'', ''e'', ''f'', ''g'', ''h'', ''i'', ''j'']"

section \<open>Leaf labels, as the specification words them\<close>

text \<open>
  A plain word is not empty, holds no white space and has at most 20 characters; a plain
  text is a non-empty list of plain words joined by single spaces.
\<close>

definition plain_word :: "string \<Rightarrow> bool" where
  "plain_word w \<longleftrightarrow> w \<noteq> [] \<and> list_all (\<lambda>c. \<not> is_space c) w \<and> length w \<le> 20"

definition plain_words :: "string list \<Rightarrow> bool" where
  "plain_words ws \<longleftrightarrow> ws \<noteq> [] \<and> list_all plain_word ws"

text \<open>
  Greedy packing: a line takes the next word as long as the line, a space and the word
  stay within 20 characters. The label has the first line, the second line when words
  are left, and as third line the next word alone, its last three characters replaced
  by an ellipsis when words are left after it.
\<close>

fun pack_line :: "string \<Rightarrow> string list \<Rightarrow> string \<times> string list" where
  "pack_line line [] = (line, [])"
| "pack_line line (w # ws) =
     (if length line + 1 + length w \<le> 20 then pack_line (line @ '' '' @ w) ws else (line, w # ws))"

definition packed_lines :: "string list \<Rightarrow> string list" where
  "packed_lines ws =
     (case ws of
        [] \<Rightarrow> []
      | w1 # rest1 \<Rightarrow>
          (case pack_line w1 rest1 of
             (l1, []) \<Rightarrow> [l1]
           | (l1, w2 # rest2) \<Rightarrow>
               (case pack_line w2 rest2 of
                  (l2, []) \<Rightarrow> [l1, l2]
                | (l2, w3 # rest3) \<Rightarrow>
                    [l1, l2, if rest3 = [] then w3 else take (length w3 - 3) w3 @ ''...''])))"

text \<open>A string that neither starts nor ends with white space.\<close>

definition tight :: "string \<Rightarrow> bool" where
  "tight s \<longleftrightarrow> s \<noteq> [] \<and> \<not> is_space (hd s) \<and> \<not> is_space (last s)"

definition short_words :: "string list" where
  "short_words = [''hello'', ''world'']"

definition long_words :: "string list" where
  "long_words = [''aaaaaaaaaaaaaaaaaaaa'', ''bbbbbbbbbbbbbbbbbbbb'', ''ccccccccccccccccccc'']"

section \<open>The plain-text codec on outlines\<close>

text \<open>The node that the export map files under an id (the last one added with that id), and the
  children it collects for the id: the targets, in edge order, of the edges from the id to known nodes.\<close>

definition node_last :: "gnode list \<Rightarrow> string \<Rightarrow> gnode option" where
  "node_last ns = map_of (rev (map (\<lambda>n. (n_id n, n)) ns))"

definition kids :: "gnode list \<Rightarrow> gedge list \<Rightarrow> string \<Rightarrow> string list" where
  "kids ns es r = map e_to (filter (\<lambda>e. e_from e = r \<and> node_last ns (e_to e) \<noteq> None) es)"

text \<open>The outline text of a forest: one line per node, two spaces of indentation per level.\<close>

fun tree_text :: "nat \<Rightarrow> outline \<Rightarrow> string"
  and forest_text :: "nat \<Rightarrow> outline list \<Rightarrow> string" where
  "tree_text lvl (Outline l cs) = indent_str lvl @ l @ [LF] @ forest_text (lvl + 1) cs"
| "forest_text lvl [] = []"
| "forest_text lvl (t # ts) = tree_text lvl t @ forest_text lvl ts"

definition export_text :: "outline list \<Rightarrow> string" where
  "export_text F = export_header @ forest_text 0 F"

text \<open>A label that survives the text format: not empty, no line feed, no white space at either
  end, and no leading \<open>#\<close>.\<close>

definition clean_label :: "string \<Rightarrow> bool" where
  "clean_label l \<longleftrightarrow>
     l \<noteq> [] \<and> \<not> is_space (hd l) \<and> \<not> is_space (last l) \<and> LF \<notin> set l \<and> hd l \<noteq> CHR ''#''"

fun clean_tree :: "outline \<Rightarrow> bool"
  and clean_forest :: "outline list \<Rightarrow> bool" where
  "clean_tree (Outline l cs) = (clean_label l \<and> clean_forest cs)"
| "clean_forest [] = True"
| "clean_forest (t # ts) = (clean_tree t \<and> clean_forest ts)"

text \<open>The rows of a forest in document order, as pairs of a depth and a label, and the line of a row.\<close>

fun tree_rows :: "nat \<Rightarrow> outline \<Rightarrow> (nat \<times> string) list"
  and forest_rows :: "nat \<Rightarrow> outline list \<Rightarrow> (nat \<times> string) list" where
  "tree_rows d (Outline l cs) = (d, l) # forest_rows (d + 1) cs"
| "forest_rows d [] = []"
| "forest_rows d (t # ts) = tree_rows d t @ forest_rows d ts"

definition row_line :: "nat \<times> string \<Rightarrow> string" where
  "row_line r = indent_str (fst r) @ snd r"

text \<open>The nodes and edges that \<open>importFromText\<close> builds for a forest whose first node gets the
  number \<open>n\<close>: a node is numbered before its children, and they before its next sibling.\<close>

definition import_edge :: "string \<Rightarrow> string \<Rightarrow> nat \<Rightarrow> gedge" where
  "import_edge p i d = \<lparr>e_from = p, e_to = i, e_width = (if d = 0 then 3 else 2), e_color = None\<rparr>"

fun sz :: "outline \<Rightarrow> nat"
  and fsz :: "outline list \<Rightarrow> nat" where
  "sz (Outline l cs) = Suc (fsz cs)"
| "fsz [] = 0"
| "fsz (t # ts) = sz t + fsz ts"

fun tree_nodes :: "nat \<Rightarrow> nat \<Rightarrow> outline \<Rightarrow> gnode list"
  and forest_nodes :: "nat \<Rightarrow> nat \<Rightarrow> outline list \<Rightarrow> gnode list" where
  "tree_nodes d n (Outline l cs) = import_node (task_id n) l (int d + 1) # forest_nodes (d + 1) (n + 1) cs"
| "forest_nodes d n [] = []"
| "forest_nodes d n (t # ts) = tree_nodes d n t @ forest_nodes d (n + sz t) ts"

fun tree_edges :: "nat \<Rightarrow> string \<Rightarrow> nat \<Rightarrow> outline \<Rightarrow> gedge list"
  and forest_edges :: "nat \<Rightarrow> string \<Rightarrow> nat \<Rightarrow> outline list \<Rightarrow> gedge list" where
  "tree_edges d p n (Outline l cs) = import_edge p (task_id n) d # forest_edges (d + 1) (task_id n) (n + 1) cs"
| "forest_edges d p n [] = []"
| "forest_edges d p n (t # ts) = tree_edges d p n t @ forest_edges d p (n + sz t) ts"

text \<open>The stack is ready for a row of depth \<open>d\<close> under the parent \<open>p\<close>: above the entry of \<open>p\<close> it
  holds only entries of level \<open>d\<close> or more.\<close>

definition ready :: "text_import \<Rightarrow> nat \<Rightarrow> string \<Rightarrow> (string \<times> int) list \<Rightarrow> bool" where
  "ready st d p base \<longleftrightarrow>
     (\<exists>hi. ti_top st # ti_below st = hi @ (p, int d - 1) # base \<and> list_all (\<lambda>x. snd x \<ge> int d) hi)"

text \<open>The ids of the roots of a forest numbered from \<open>n\<close>, the targets of the edges that leave an id, and
  a map that holds a numbered forest.\<close>

fun roots :: "nat \<Rightarrow> outline list \<Rightarrow> string list" where
  "roots n [] = []"
| "roots n (t # ts) = task_id n # roots (n + sz t) ts"

definition out_of :: "gedge list \<Rightarrow> string \<Rightarrow> string list" where
  "out_of es q = map e_to (filter (\<lambda>e. e_from e = q) es)"

fun tree_at :: "(string \<Rightarrow> (gnode \<times> string list) option) \<Rightarrow> nat \<Rightarrow> outline \<Rightarrow> bool"
  and forest_at :: "(string \<Rightarrow> (gnode \<times> string list) option) \<Rightarrow> nat \<Rightarrow> outline list \<Rightarrow> bool" where
  "tree_at M n (Outline l cs) =
     ((\<exists>node. M (task_id n) = Some (node, roots (n + 1) cs) \<and> n_label node = l) \<and> forest_at M (n + 1) cs)"
| "forest_at M n [] = True"
| "forest_at M n (t # ts) = (tree_at M n t \<and> forest_at M (n + sz t) ts)"

text \<open>The document that the import builds for a forest, and the round trip through the text format.\<close>

definition imported_nodes :: "outline list \<Rightarrow> gnode list" where
  "imported_nodes F = import_root ''Mind Map'' # forest_nodes 0 0 F"

definition imported_edges :: "outline list \<Rightarrow> gedge list" where
  "imported_edges F = forest_edges 0 ''root'' 0 F"

definition reimport :: "gnode list \<Rightarrow> gedge list \<Rightarrow> outline list option" where
  "reimport ns es =
     (case exportToPlainText ns es of
        Inl err \<Rightarrow> None
      | Inr text \<Rightarrow>
          (case importFromText text of
             None \<Rightarrow> None
           | Some d \<Rightarrow> doc_outline (i_nodes d) (i_edges d)))"

text \<open>
  A comment line, in the words of the specification: its first non-blank character is \<open>#\<close>.
  The text without its comment lines is what is left when every such line is deleted, a
  line being what \<open>split_lines\<close> makes of the text.
\<close>

definition is_comment :: "string \<Rightarrow> bool" where
  "is_comment line \<longleftrightarrow> (case dropWhile is_space line of [] \<Rightarrow> False | c # cs \<Rightarrow> c = CHR ''#'')"

definition without_comments :: "string \<Rightarrow> string" where
  "without_comments text = join_with [LF] (filter (\<lambda>line. \<not> is_comment line) (split_lines text))"

text \<open>The import sees one line per node: the header and the empty line after it are dropped.\<close>

text \<open>A line without the carriage return at its end: \<open>split(/\r?\n/)\<close> takes it with the line feed.\<close>

definition chomp :: "string \<Rightarrow> string" where
  "chomp l = (if l \<noteq> [] \<and> last l = CR then butlast l else l)"

text \<open>The document of a single leaf whose text of 31 characters is wrapped into two lines.\<close>

definition wrapped_doc :: editor where
  "wrapped_doc = the (generate example_fonts True ''aaaaaaaaaaaaaaa bbbbbbbbbbbbbbb'')"

section \<open>Properties of the indentation\<close>

lemma length_replace_tabs:
  "length (replace_tabs r s) = length (filter (\<lambda>c. c \<noteq> TAB) s) + length r * length (filter (\<lambda>c. c = TAB) s)"
  by (induction s) (simp_all add: replace_tabs_def)

lemma getIndentLevel_floor_half_aux:
  "getIndentLevel line =
     (length (filter (\<lambda>c. c \<noteq> TAB) (takeWhile is_space line))
      + 4 * length (filter (\<lambda>c. c = TAB) (takeWhile is_space line))) div 2"
  by (simp add: getIndentLevel_def leading_ws_def length_replace_tabs)

text \<open>
  Claim C8. The indentation level of a line is the floor of half the width of its leading
  white space, where a tab counts for four columns and every other white-space character
  for one.
\<close>

theorem getIndentLevel_floor_half:
  "getIndentLevel line =
     (length (filter (\<lambda>c. c \<noteq> TAB) (takeWhile is_space line))
      + 4 * length (filter (\<lambda>c. c = TAB) (takeWhile is_space line))) div 2"
  by (simp add: getIndentLevel_def leading_ws_def length_replace_tabs)

text \<open>A line that starts with \<open>t\<close> tabs and \<open>s\<close> spaces has the level \<open>2 t + s div 2\<close>: a tab makes two levels.\<close>

lemma getIndentLevel_tabs_spaces:
  assumes "rest = [] \<or> \<not> is_space (hd rest)"
  shows "getIndentLevel (replicate t TAB @ replicate s SPC @ rest) = 2 * t + s div 2"
proof -
  have sp: "is_space TAB" "is_space SPC" by (simp_all add: is_space_def TAB_def SPC_def)
  have "takeWhile is_space ((replicate t TAB @ replicate s SPC) @ rest)
          = (replicate t TAB @ replicate s SPC) @ takeWhile is_space rest"
    by (rule takeWhile_append2) (use sp in auto)
  moreover have "takeWhile is_space rest = []" using assms by (cases rest) auto
  ultimately have ws: "takeWhile is_space (replicate t TAB @ replicate s SPC @ rest)
          = replicate t TAB @ replicate s SPC" by simp
  have ne: "SPC \<noteq> TAB" by (simp add: SPC_def TAB_def)
  show ?thesis
    unfolding getIndentLevel_floor_half_aux ws using ne by simp
qed

section \<open>Properties of the classifier\<close>

lemma startsWith_iff: "startsWith s k \<longleftrightarrow> (\<exists>t. s = k @ t)"
  by (induction s k rule: startsWith.induct) auto

lemma includes_iff: "includes_str s k \<longleftrightarrow> (\<exists>p t. s = p @ k @ t)"
proof (induction s)
  case Nil
  then show ?case by auto
next
  case (Cons c cs)
  show ?case
  proof
    assume "includes_str (c # cs) k"
    then consider "startsWith (c # cs) k" | "includes_str cs k" by auto
    then show "\<exists>p t. c # cs = p @ k @ t"
    proof cases
      case 1
      then obtain t where "c # cs = k @ t" by (auto simp: startsWith_iff)
      then have "c # cs = [] @ k @ t" by simp
      then show ?thesis by blast
    next
      case 2
      then obtain p t where "cs = p @ k @ t" using Cons.IH by blast
      then have "c # cs = (c # p) @ k @ t" by simp
      then show ?thesis by blast
    qed
  next
    assume "\<exists>p t. c # cs = p @ k @ t"
    then obtain p t where eq: "c # cs = p @ k @ t" by blast
    show "includes_str (c # cs) k"
    proof (cases p)
      case Nil
      with eq have "startsWith (c # cs) k" by (auto simp: startsWith_iff)
      then show ?thesis by simp
    next
      case (Cons a p')
      with eq have "cs = p' @ k @ t" by simp
      then have "includes_str cs k" using Cons.IH by blast
      then show ?thesis by simp
    qed
  qed
qed

lemma detect_loop_first:
  "detect_loop groups lower =
     (case filter (\<lambda>(g, kws). \<exists>kw \<in> set kws. includes_str lower kw) groups of
        [] \<Rightarrow> ''Other'' | (g, kws) # rest \<Rightarrow> g)"
  by (induction groups lower rule: detect_loop.induct) (simp_all add: list_ex_iff)

subsection \<open>Lower case and the letters\<close>

text \<open>
  On the keywords, which hold small letters only, the comparison of the lower-cased text
  with the keyword is the comparison up to case: \<open>lower_char c = k\<close> holds for a small
  letter \<open>k\<close> exactly when \<open>c\<close> is \<open>k\<close> or its capital.
\<close>

lemma table_codes:
  "list_all (\<lambda>(u, l). 65 \<le> (of_char u :: nat) \<and> (of_char u :: nat) \<le> 90 \<and> (of_char l :: nat) = of_char u + 32)
     (zip capitals smalls)"
  by code_simp

lemma codes_table:
  "list_all (\<lambda>n. (char_of n, char_of (n + 32)) \<in> set (zip capitals smalls)) [65..<91]"
  by code_simp

lemma smalls_codes: "list_all (\<lambda>k. 97 \<le> (of_char k :: nat) \<and> (of_char k :: nat) \<le> 122) smalls"
  by code_simp

lemma table_iff:
  "(u, l) \<in> set (zip capitals smalls) \<longleftrightarrow>
     65 \<le> (of_char u :: nat) \<and> (of_char u :: nat) \<le> 90 \<and> (of_char l :: nat) = of_char u + 32"
proof
  assume "(u, l) \<in> set (zip capitals smalls)"
  with table_codes show "65 \<le> (of_char u :: nat) \<and> (of_char u :: nat) \<le> 90 \<and> (of_char l :: nat) = of_char u + 32"
    unfolding list_all_iff by blast
next
  assume a: "65 \<le> (of_char u :: nat) \<and> (of_char u :: nat) \<le> 90 \<and> (of_char l :: nat) = of_char u + 32"
  define n :: nat where "n = of_char u"
  from a have "65 \<le> n \<and> n < 91" by (simp add: n_def)
  then have "n \<in> set [65..<91]" by (simp only: set_upt atLeastLessThan_iff)
  with codes_table have "(char_of n, char_of (n + 32)) \<in> set (zip capitals smalls)"
    unfolding list_all_iff by blast
  moreover have "char_of n = u" by (simp add: n_def)
  moreover have "char_of (n + 32) = l"
  proof -
    from a have "n + 32 = of_char l" by (simp add: n_def)
    then show ?thesis by simp
  qed
  ultimately show "(u, l) \<in> set (zip capitals smalls)" by simp
qed

lemma same_letter_lower:
  assumes "k \<in> set smalls"
  shows "(lower_char c = k) = same_letter c k"
proof -
  define n :: nat where "n = of_char c"
  define j :: nat where "j = of_char k"
  from assms smalls_codes have j: "97 \<le> j" "j \<le> 122" unfolding list_all_iff j_def by blast+
  have eq: "(c = k) = (n = j)" by (simp add: n_def j_def)
  have same: "same_letter c k = (n = j \<or> (65 \<le> n \<and> n \<le> 90 \<and> j = n + 32))"
    unfolding same_letter_def table_iff eq using j by (auto simp: n_def j_def)
  have n: "n < 256" unfolding n_def by (rule nat_of_char_less_256)
  have low: "(char_of m = k) = (m = j)" if "m < 256" for m :: nat
  proof -
    have "(char_of m = k) = ((of_char (char_of m) :: nat) = of_char k)" by (simp only: of_char_eq_iff)
    also have "\<dots> = (m = j)" using that by (simp add: j_def)
    finally show ?thesis .
  qed
  show ?thesis
  proof (cases "(65 \<le> n \<and> n \<le> 90) \<or> (192 \<le> n \<and> n \<le> 222 \<and> n \<noteq> 215)")
    case True
    then have "lower_char c = char_of (n + 32)" by (simp add: lower_char_def n_def Let_def)
    moreover from True have "n + 32 < 256" by arith
    ultimately have "(lower_char c = k) = (n + 32 = j)" using low by simp
    with True j show ?thesis unfolding same by arith
  next
    case False
    then have "lower_char c = c" by (simp only: lower_char_def Let_def n_def [symmetric] if_False)
    then have "(lower_char c = k) = (n = j)" using eq by simp
    with False j show ?thesis unfolding same by arith
  qed
qed

lemma lower_same_letters:
  "set kw \<subseteq> set smalls \<Longrightarrow> (map lower_char m = kw) = list_all2 same_letter m kw"
proof (induction m arbitrary: kw)
  case Nil
  then show ?case by auto
next
  case (Cons c m)
  show ?case
  proof (cases kw)
    case Nil
    then show ?thesis by simp
  next
    case (Cons k ks)
    with Cons.prems have "k \<in> set smalls" "set ks \<subseteq> set smalls" by auto
    with Cons.IH [of ks] same_letter_lower [of k c] Cons show ?thesis by simp
  qed
qed

lemma includes_lower:
  assumes "set kw \<subseteq> set smalls"
  shows "includes_str (toLowerCase text) kw = ci_substring kw text"
proof -
  have "(\<exists>p' t'. map lower_char text = p' @ kw @ t') = (\<exists>p m t. text = p @ m @ t \<and> map lower_char m = kw)"
    by (auto simp: map_eq_append_conv append_eq_map_conv) blast+
  then show ?thesis
    unfolding includes_iff toLowerCase_def ci_substring_def
    using lower_same_letters [OF assms] by simp
qed

lemma keywords_small:
  "list_all (\<lambda>(g, kws). list_all (\<lambda>kw. list_all (\<lambda>k. k \<in> set smalls) kw) kws) KEYWORD_GROUPS"
  by code_simp

lemma match_lower:
  assumes "x \<in> set KEYWORD_GROUPS"
  shows "(case x of (g, kws) \<Rightarrow> \<exists>kw \<in> set kws. includes_str (toLowerCase text) kw)
           = (case x of (g, kws) \<Rightarrow> kw_match text kws)"
proof -
  obtain g kws where x: "x = (g, kws)" by (cases x)
  with assms keywords_small have "\<forall>kw \<in> set kws. set kw \<subseteq> set smalls"
    unfolding list_all_iff by blast
  then have "(\<exists>kw \<in> set kws. includes_str (toLowerCase text) kw) = kw_match text kws"
    unfolding kw_match_def using includes_lower by blast
  then show ?thesis unfolding x by simp
qed

lemma ci_substringI: "text = p @ m @ t \<Longrightarrow> list_all2 same_letter m kw \<Longrightarrow> ci_substring kw text"
  unfolding ci_substring_def by blast

text \<open>
  Claim C9. The classifier returns the first category of \<open>KEYWORD_GROUPS\<close>, in declaration
  order, one of whose keywords is a case-insensitive substring of the text, and \<open>Other\<close>
  when there is none. A text that holds a keyword of Design and a keyword of Testing is
  classified as Design, the one declared first, wherever the keywords stand. The match is
  the one of the specification: \<open>kw_match\<close> compares the characters through the listed
  letters and does not use \<open>toLowerCase\<close>.
\<close>

theorem detectKeyword_first_match:
  "detectKeyword text =
     (case filter (\<lambda>(g, kws). kw_match text kws) KEYWORD_GROUPS of
        [] \<Rightarrow> ''Other'' | (g, kws) # rest \<Rightarrow> g)
   \<and> map fst KEYWORD_GROUPS = [''Design'', ''Development'', ''Testing'', ''Documentation'', ''Deployment'']
   \<and> (kw_match text (snd (KEYWORD_GROUPS ! 0)) \<and> kw_match text (snd (KEYWORD_GROUPS ! 2))
        \<longrightarrow> detectKeyword text = ''Design'')"
proof -
  have "filter (\<lambda>(g, kws). \<exists>kw \<in> set kws. includes_str (toLowerCase text) kw) KEYWORD_GROUPS
          = filter (\<lambda>(g, kws). kw_match text kws) KEYWORD_GROUPS"
    by (rule filter_cong) (simp_all add: match_lower)
  then have first: "detectKeyword text =
     (case filter (\<lambda>(g, kws). kw_match text kws) KEYWORD_GROUPS of
        [] \<Rightarrow> ''Other'' | (g, kws) # rest \<Rightarrow> g)"
    unfolding detectKeyword_def detect_loop_first by simp
  have names: "map fst KEYWORD_GROUPS = [''Design'', ''Development'', ''Testing'', ''Documentation'', ''Deployment'']"
    by (simp add: KEYWORD_GROUPS_def)
  have "detectKeyword text = ''Design''" if "kw_match text (snd (KEYWORD_GROUPS ! 0))"
    using that unfolding first by (simp add: KEYWORD_GROUPS_def)
  with first names show ?thesis by blast
qed

theorem detectKeyword_first_match_witness:
  "kw_match ''Test the UI'' (snd (KEYWORD_GROUPS ! 0)) \<and> kw_match ''Test the UI'' (snd (KEYWORD_GROUPS ! 2))
   \<and> detectKeyword ''Test the UI'' = ''Design''"
proof -
  have "ci_substring ''ui'' ''Test the UI''"
    by (rule ci_substringI [where p = "''Test the ''" and m = "''UI''" and t = "''''"])
       (simp_all add: same_letter_def capitals_def smalls_def)
  then have a: "kw_match ''Test the UI'' (snd (KEYWORD_GROUPS ! 0))"
    unfolding kw_match_def by (simp add: KEYWORD_GROUPS_def)
  have "ci_substring ''test'' ''Test the UI''"
    by (rule ci_substringI [where p = "''''" and m = "''Test''" and t = "'' the UI''"])
       (simp_all add: same_letter_def capitals_def smalls_def)
  then have b: "kw_match ''Test the UI'' (snd (KEYWORD_GROUPS ! 2))"
    unfolding kw_match_def by (simp add: KEYWORD_GROUPS_def)
  from a b detectKeyword_first_match [of "''Test the UI''"] show ?thesis by blast
qed

text \<open>Capital letters in the text do not change the category.\<close>

lemma detectKeyword_examples:
  "detectKeyword ''DEPLOY to the server'' = ''Deployment''
   \<and> detectKeyword ''deploy'' = ''Deployment''
   \<and> detectKeyword ''Quality check of the Mockup'' = ''Design''
   \<and> detectKeyword ''Lunch'' = ''Other''"
  by code_simp

section \<open>Properties of the structural editor\<close>

lemma deleteNode_edges:
  assumes "deleteNode s = Inr s'"
  shows "edges s' = edges s"
  using assms
  by (auto simp: deleteNode_def Let_def split: if_splits option.splits)

lemma find_map_same_id:
  assumes "\<And>n. n_id (g n) = n_id n"
  shows "find (\<lambda>n. n_id n = i) (map g ns) = map_option g (find (\<lambda>n. n_id n = i) ns)"
  by (induction ns) (simp_all add: assms)

lemma ds_get_update:
  assumes "\<And>n. n_id (f n) = n_id n"
  shows "ds_get (ds_update ns i f) j = map_option (\<lambda>n. if n_id n = i then f n else n) (ds_get ns j)"
  unfolding ds_get_def ds_update_def
  by (rule find_map_same_id) (simp add: assms)

lemma ds_get_snoc: "ds_get (ns @ [n]) j = (case ds_get ns j of Some x \<Rightarrow> Some x | None \<Rightarrow> if n_id n = j then Some n else None)"
  by (induction ns) (simp_all add: ds_get_def)

lemma ds_get_id: "ds_get ns j = Some n \<Longrightarrow> n_id n = j"
  by (induction ns) (auto simp: ds_get_def split: if_splits)

text \<open>
  Adding a child to a leaf: with a leaf (box) selected and an unused id for the new node,
  the operation succeeds, the selected node becomes a container (dot), the new node is a
  leaf, and the one new edge goes from the selected node to the new node.
\<close>

lemma addChildNode_box_becomes_dot:
  assumes sel: "selectedNodeId s = Some sel" "sel \<noteq> []" "sel \<noteq> ''root''"
    and node: "ds_get (nodes s) sel = Some n" "n_shape n = Box"
    and fresh: "ds_get (nodes s) (task_id now) = None"
  shows "\<exists>s'. addChildNode now s = Inr s'
           \<and> shape_of (nodes s') sel = Some Dot
           \<and> shape_of (nodes s') (task_id now) = Some Box
           \<and> edges s' = edges s @ [\<lparr>e_from = sel, e_to = task_id now, e_width = 2, e_color = None\<rparr>]"
proof -
  let ?new = "new_task_node (task_id now) (n_level n + 1) (n_color n)"
  let ?f = "\<lambda>x. x\<lparr>n_shape := Dot, n_size := Some 28,
                 n_font := Some ((case n_font n of None \<Rightarrow> empty_font | Some f \<Rightarrow> f)
                                   \<lparr>f_bold := Some True, f_size := Some 20\<rparr>),
                 n_margin := None\<rparr>"
  have idn: "n_id n = sel" using node(1) by (rule ds_get_id)
  have newid: "n_id ?new = task_id now" by (simp add: new_task_node_def)
  have ne: "sel \<noteq> task_id now" using node(1) fresh by auto
  have add: "ds_add (nodes s) ?new = Inr (nodes s @ [?new])"
    using fresh by (simp add: ds_add_def newid)
  have keep: "\<And>x. n_id (?f x) = n_id x" by simp
  have g1: "ds_get (ds_update (nodes s @ [?new]) sel ?f) sel = Some (?f n)"
    using node(1) idn by (simp add: ds_get_update [OF keep] ds_get_snoc)
  have g2: "ds_get (ds_update (nodes s @ [?new]) sel ?f) (task_id now) = Some ?new"
    using fresh ne newid by (simp add: ds_get_update [OF keep] ds_get_snoc)
  have run: "addChildNode now s =
      Inr \<lparr>nodes = ds_update (nodes s @ [?new]) sel ?f,
           edges = edges s @ [\<lparr>e_from = sel, e_to = task_id now, e_width = 2, e_color = None\<rparr>],
           selectedNodeId = Some (task_id now)\<rparr>"
    using sel node add by (simp add: addChildNode_def no_selection_def Let_def)
  have "n_shape ?new = Box" by (simp add: new_task_node_def)
  with run g1 g2 show ?thesis by (simp add: shape_of_def)
qed

text \<open>
  Adding a child or a sibling appends at most one edge, and that edge enters the new
  node: the number of edges into any other node stays as it was.
\<close>

lemma addChildNode_incoming:
  assumes "addChildNode now s = Inr s'" "x \<noteq> task_id now"
  shows "filter (\<lambda>e. e_to e = x) (edges s') = filter (\<lambda>e. e_to e = x) (edges s)"
  using assms
  by (auto simp: addChildNode_def Let_def split: if_splits option.splits sum.splits)

lemma addSiblingNode_incoming:
  assumes "addSiblingNode now s = Inr s'" "x \<noteq> task_id now"
  shows "filter (\<lambda>e. e_to e = x) (edges s') = filter (\<lambda>e. e_to e = x) (edges s)"
  using assms
  by (auto simp: addSiblingNode_def Let_def split: if_splits option.splits sum.splits list.splits)

text \<open>
  Claim C1, evaluated on the code. In the document generated from the outline A (B (D), C),
  deleting A (\<open>task_0\<close>) removes the four nodes A, B, D and C, and leaves all four edges
  in the edge data set, the edges at the removed nodes among them.
\<close>

theorem deleteNode_leaves_incident_edges:
  "node_ids (nodes family_doc) = [''root'', ''task_0'', ''task_1'', ''task_2'', ''task_3'']
   \<and> edge_ends (edges family_doc) =
       [(''root'', ''task_0''), (''task_0'', ''task_1''), (''task_1'', ''task_2''), (''task_0'', ''task_3'')]
   \<and> deleteNode (family_doc\<lparr>selectedNodeId := Some ''task_0''\<rparr>) =
       Inr \<lparr>nodes = [root_node example_fonts], edges = edges family_doc, selectedNodeId = None\<rparr>"
  by code_simp

text \<open>
  Claim C2, evaluated on the code. In the document generated from the outline A (B), A is a
  container and B its only child. Deleting B (\<open>task_1\<close>) removes the node B and leaves A
  with the container shape: the edge from A to B is still in the edge data set, so the
  test for a parent without children fails.
\<close>

theorem deleteNode_only_child_keeps_container_shape:
  "shape_of (nodes only_child_doc) ''task_0'' = Some Dot
   \<and> edge_ends (edges only_child_doc) = [(''root'', ''task_0''), (''task_0'', ''task_1'')]
   \<and> deleteNode (only_child_doc\<lparr>selectedNodeId := Some ''task_1''\<rparr>) =
       Inr \<lparr>nodes = [root_node example_fonts, hd (tl (nodes only_child_doc))],
            edges = edges only_child_doc, selectedNodeId = None\<rparr>
   \<and> shape_of [root_node example_fonts, hd (tl (nodes only_child_doc))] ''task_0'' = Some Dot"
  by code_simp

text \<open>
  Claim C10, as amended. Adding a child is a no-op when nothing is selected or the root
  is selected, and whenever it succeeds it leaves the edges as they are or appends one
  edge that does not start at the root: no top-level branch comes from this operation.
\<close>

theorem addChildNode_never_extends_root:
  "(no_selection (selectedNodeId s) \<or> selectedNodeId s = Some ''root'' \<longrightarrow> addChildNode now s = Inr s)
   \<and> (addChildNode now s = Inr s' \<longrightarrow>
        edges s' = edges s \<or> (\<exists>e. edges s' = edges s @ [e] \<and> e_from e \<noteq> ''root''))"
  by (auto simp: addChildNode_def Let_def no_selection_def split: option.splits sum.splits if_splits)

theorem addChildNode_never_extends_root_witness:
  "selectedNodeId (only_child_doc\<lparr>selectedNodeId := Some ''root''\<rparr>) = Some ''root''
   \<and> addChildNode 7 (only_child_doc\<lparr>selectedNodeId := Some ''root''\<rparr>)
       = Inr (only_child_doc\<lparr>selectedNodeId := Some ''root''\<rparr>)"
  using addChildNode_never_extends_root [of "only_child_doc\<lparr>selectedNodeId := Some ''root''\<rparr>" 7]
  by simp

text \<open>
  The claim C10 as stated fails: with the top-level node A selected, adding a sibling
  appends an edge from the root to the new node.
\<close>

theorem addSiblingNode_extends_root_counterexample:
  "edge_ends (edges only_child_doc) = [(''root'', ''task_0''), (''task_0'', ''task_1'')]
   \<and> map_sum id edges (addSiblingNode 7 (only_child_doc\<lparr>selectedNodeId := Some ''task_0''\<rparr>)) =
       Inr (edges only_child_doc @ [\<lparr>e_from = ''root'', e_to = ''task_7'', e_width = 3, e_color = None\<rparr>])"
  by code_simp

section \<open>Properties of the FreeMind import\<close>

text \<open>
  Claim C5, as amended. The import returns null exactly when the parsed document holds a
  \<open>parsererror\<close> element, that is on markup that does not parse; a document that parses
  and has no \<open>node\<close> element under a \<open>map\<close> element is imported as the empty document, with
  no nodes and no edges. The whole function body stands in a \<open>try\<close> block whose handler
  returns null, so no exception leaves it: the result is an option.
\<close>

theorem importFromFreeMind_null_only_on_parse_error:
  "(has_tag ''parsererror'' xmlDoc \<longrightarrow> importFromFreeMind xmlDoc = None)
   \<and> (\<not> has_tag ''parsererror'' xmlDoc \<longrightarrow> importFromFreeMind xmlDoc \<noteq> None)
   \<and> (\<not> has_tag ''parsererror'' xmlDoc \<and> query_map_node (tag xmlDoc) (child_elems xmlDoc) = None
        \<longrightarrow> importFromFreeMind xmlDoc = Some \<lparr>i_nodes = [], i_edges = []\<rparr>)"
  by (simp add: importFromFreeMind_def Let_def)

theorem importFromFreeMind_null_only_on_parse_error_witness:
  "has_tag ''parsererror'' (Elem ''parsererror'' [] [Elem ''sourcetext'' [] []])
   \<and> importFromFreeMind (Elem ''parsererror'' [] [Elem ''sourcetext'' [] []]) = None
   \<and> \<not> has_tag ''parsererror'' (Elem ''map'' [] [Elem ''attribute_registry'' [] []])
   \<and> query_map_node ''map'' [Elem ''attribute_registry'' [] []] = None
   \<and> importFromFreeMind (Elem ''map'' [] [Elem ''attribute_registry'' [] []])
        = Some \<lparr>i_nodes = [], i_edges = []\<rparr>"
  using importFromFreeMind_null_only_on_parse_error [of "Elem ''parsererror'' [] [Elem ''sourcetext'' [] []]"]
        importFromFreeMind_null_only_on_parse_error [of "Elem ''map'' [] [Elem ''attribute_registry'' [] []]"]
  by simp

text \<open>
  The claim C5 as stated fails: the well-formed document \<open><map version="1.0.1"></map>\<close>,
  which has no \<open>node\<close> element (it is what the FreeMind export writes for a document
  without a root), is imported as an object with empty node and edge arrays, not as null.
\<close>

theorem importFromFreeMind_missing_root_not_null_counterexample:
  "importFromFreeMind (Elem ''map'' [(''version'', ''1.0.1'')] []) = Some \<lparr>i_nodes = [], i_edges = []\<rparr>"
  by code_simp

section \<open>Properties of the JSON codec\<close>

lemma to_json_defined:
  "defined_val v \<longrightarrow> to_json v = v"
  "defined_props ps \<longrightarrow> to_json_props ps = ps"
  "defined_items vs \<longrightarrow> to_json_items vs = vs"
  by (induction v and ps and vs rule: to_json_to_json_props_to_json_items.induct) auto

lemma import_export_json:
  "importFromJSON (Some (exportToJSON created d)) =
     Some \<lparr>j_nodes = to_json (JArr (items (x_nodes d))),
           j_edges = to_json (JArr (items (x_edges d))),
           j_metadata = to_json (metadata_or_empty (x_metadata d))\<rparr>"
  by (cases "x_metadata d")
     (simp_all add: importFromJSON_def exportToJSON_def exportData_def metadata_or_empty_def)

text \<open>
  Claim C7, as amended. Importing what \<open>exportToJSON\<close> wrote always succeeds and returns
  the exported nodes, edges and metadata as JSON writes them, that is without the
  properties whose value is \<open>undefined\<close>; when no \<open>undefined\<close> occurs in them, the
  imported nodes, edges and metadata equal the exported ones.
\<close>

theorem json_roundtrip_up_to_undefined:
  "importFromJSON (Some (exportToJSON created d)) =
     Some \<lparr>j_nodes = to_json (JArr (items (x_nodes d))),
           j_edges = to_json (JArr (items (x_edges d))),
           j_metadata = to_json (metadata_or_empty (x_metadata d))\<rparr>
   \<and> (defined_items (items (x_nodes d)) \<and> defined_items (items (x_edges d))
        \<and> defined_val (metadata_or_empty (x_metadata d))
       \<longrightarrow> importFromJSON (Some (exportToJSON created d)) =
             Some \<lparr>j_nodes = JArr (items (x_nodes d)),
                   j_edges = JArr (items (x_edges d)),
                   j_metadata = metadata_or_empty (x_metadata d)\<rparr>)"
  using to_json_defined(1) [of "JArr (items (x_nodes d))"]
        to_json_defined(1) [of "JArr (items (x_edges d))"]
        to_json_defined(1) [of "metadata_or_empty (x_metadata d)"]
  by (simp add: import_export_json)

theorem json_roundtrip_up_to_undefined_witness:
  "defined_items (items (x_nodes plain_export)) \<and> defined_items (items (x_edges plain_export))
   \<and> defined_val (metadata_or_empty (x_metadata plain_export))
   \<and> importFromJSON (Some (exportToJSON ''2026-01-01T00:00:00.000Z'' plain_export)) =
       Some \<lparr>j_nodes = JArr (items (x_nodes plain_export)),
             j_edges = JArr (items (x_edges plain_export)),
             j_metadata = JObj []\<rparr>"
  using json_roundtrip_up_to_undefined [of "''2026-01-01T00:00:00.000Z''" plain_export]
  by (simp add: plain_export_def metadata_or_empty_def)

text \<open>
  The claim C7 as stated fails on a generated leaf: the exported item has the property
  \<open>size\<close>, the imported one has not.
\<close>

theorem json_roundtrip_drops_undefined_counterexample:
  "map_option j_nodes (importFromJSON (Some (exportToJSON ''2026-01-01T00:00:00.000Z'' leaf_export)))
     \<noteq> Some (JArr (items (x_nodes leaf_export)))"
  by code_simp

section \<open>Properties of the reconstruction\<close>

text \<open>
  Claim C3, evaluated on the code. The eleven lines a to k parse to eleven top-level
  nodes, which get the ids \<open>task_0\<close> to \<open>task_10\<close>. The reconstruction sorts the children
  of the root by id as strings, where \<open>task_10\<close> comes before \<open>task_2\<close>: the text it writes
  parses to the nodes in the order a, b, k, c, ..., j, which is another outline.
\<close>

theorem roundtrip_reorders_eleven_siblings:
  "parseHierarchicalTasks eleven_lines = Some eleven_tasks
   \<and> roundtrip example_fonts True eleven_tasks = Some reordered_tasks
   \<and> map outline_of reordered_tasks \<noteq> map outline_of eleven_tasks"
  by code_simp

section \<open>Properties of the leaf labels\<close>

lemma is_space_SPC [simp]: "is_space CHR '' ''"
  by (simp add: is_space_def)

subsection \<open>Trimming and splitting\<close>

lemma trim_tight: "tight s \<Longrightarrow> trim s = s"
proof -
  assume t: "tight s"
  then obtain c cs where s: "s = c # cs" by (cases s) (auto simp: tight_def)
  with t have a: "dropWhile is_space s = s" by (simp add: tight_def)
  from t have "rev s \<noteq> []" "\<not> is_space (hd (rev s))" by (auto simp: tight_def hd_rev)
  then have "dropWhile is_space (rev s) = rev s" by (cases "rev s") auto
  with a show ?thesis by (simp add: trim_def)
qed

lemma trim_space_first: "trim (CHR '' '' # s) = trim s"
  by (simp add: trim_def)

lemma plain_word_tight: "plain_word w \<Longrightarrow> tight w"
  unfolding plain_word_def tight_def list_all_iff
  using hd_in_set [of w] last_in_set [of w] by blast

lemma tight_join: "tight a \<Longrightarrow> tight b \<Longrightarrow> tight (a @ '' '' @ b)"
  by (auto simp: tight_def)

lemma tight_join': "tight a \<Longrightarrow> tight b \<Longrightarrow> tight (a @ CHR '' '' # b)"
  using tight_join [of a b] by simp

subsection \<open>The loop packs lines\<close>

lemma wrap_words_pack:
  assumes "tight cur" "list_all plain_word ws" "length lines < 2"
  shows "wrap_words ws lines cur =
     (case pack_line cur ws of
        (l, []) \<Rightarrow> (lines, l)
      | (l, w # r) \<Rightarrow> if length lines = 1 then (lines @ [l], w) else wrap_words r (lines @ [l]) w)"
  using assms
proof (induction ws arbitrary: cur)
  case Nil
  then show ?case by simp
next
  case (Cons w ws)
  from Cons.prems have tw: "tight w" and rest: "list_all plain_word ws"
    by (auto simp: plain_word_tight)
  have tc: "tight (cur @ '' '' @ w)" using Cons.prems(1) tw by (rule tight_join)
  have cand: "trim (cur @ '' '' @ w) = cur @ '' '' @ w" using tc by (rule trim_tight)
  have ne: "cur \<noteq> []" using Cons.prems(1) by (simp add: tight_def)
  show ?case
  proof (cases "length cur + 1 + length w \<le> 20")
    case True
    then show ?thesis
      using Cons.IH [OF tc rest Cons.prems(3)] cand Cons.prems(3) by (simp add: Let_def)
  next
    case False
    then show ?thesis using cand ne Cons.prems(3) by (auto simp: Let_def)
  qed
qed


lemma split_on_nonempty [simp]: "split_on d s \<noteq> []"
  by (induction s) (auto simp: push_char_def split: list.splits)

lemma length_split_on: "length (split_on d s) = Suc (count_list s d)"
  by (induction s) (auto simp: push_char_def split: list.splits)

lemma split_on_single: "d \<notin> set w \<Longrightarrow> split_on d w = [w]"
  by (induction w) (auto simp: push_char_def)

lemma split_on_append: "d \<notin> set w \<Longrightarrow> split_on d (w @ d # rest) = w # split_on d rest"
  by (induction w) (auto simp: push_char_def)

lemma join_with_Cons: "ys \<noteq> [] \<Longrightarrow> join_with sep (x # ys) = x @ sep @ join_with sep ys"
  by (cases ys) auto

lemma split_on_join:
  "ws \<noteq> [] \<Longrightarrow> list_all (\<lambda>w. d \<notin> set w) ws \<Longrightarrow> split_on d (join_with [d] ws) = ws"
proof (induction ws)
  case Nil
  then show ?case by simp
next
  case (Cons w ws)
  show ?case
  proof (cases ws)
    case Nil
    with Cons.prems show ?thesis by (simp add: split_on_single)
  next
    case (Cons v vs)
    with Cons.prems Cons.IH show ?thesis by (simp add: split_on_append)
  qed
qed

lemma plain_word_no_SPC: "plain_word w \<Longrightarrow> CHR '' '' \<notin> set w"
  by (auto simp: plain_word_def list_all_iff)

text \<open>Packing keeps the text: the line and the words left, joined, are the line and the words given.\<close>

lemma pack_line_join:
  "pack_line cur ws = (l, r) \<Longrightarrow> join_with '' '' (l # r) = join_with '' '' (cur # ws)"
proof (induction ws arbitrary: cur)
  case Nil
  then show ?case by simp
next
  case (Cons w ws)
  show ?case
  proof (cases "length cur + 1 + length w \<le> 20")
    case True
    with Cons.prems have "pack_line (cur @ '' '' @ w) ws = (l, r)" by simp
    from Cons.IH [OF this] show ?thesis by (cases ws) auto
  next
    case False
    with Cons.prems show ?thesis by auto
  qed
qed

lemma pack_line_length:
  "pack_line cur ws = (l, r) \<Longrightarrow> length cur \<le> 20 \<Longrightarrow> length l \<le> 20"
  by (induction ws arbitrary: cur) (auto split: if_splits)

lemma pack_line_rest:
  "pack_line cur ws = (l, r) \<Longrightarrow> list_all P ws \<Longrightarrow> list_all P r"
  by (induction ws arbitrary: cur) (auto split: if_splits)

lemma pack_line_tight:
  "pack_line cur ws = (l, r) \<Longrightarrow> tight cur \<Longrightarrow> list_all plain_word ws \<Longrightarrow> tight l"
  by (induction ws arbitrary: cur) (auto split: if_splits simp: tight_join' plain_word_tight)

lemma length_join_first: "length x \<le> length (join_with sep (x # ws))"
  by (cases ws) auto

lemma pack_line_all:
  "length (join_with '' '' (cur # ws)) \<le> 20 \<Longrightarrow> pack_line cur ws = (join_with '' '' (cur # ws), [])"
proof (induction ws arbitrary: cur)
  case Nil
  then show ?case by simp
next
  case (Cons w ws)
  have eq: "join_with '' '' (cur # w # ws) = join_with '' '' ((cur @ '' '' @ w) # ws)"
    by (cases ws) auto
  have "length (cur @ '' '' @ w) \<le> length (join_with '' '' ((cur @ '' '' @ w) # ws))"
    by (rule length_join_first)
  also have "\<dots> \<le> 20" using Cons.prems unfolding eq .
  finally have fits: "length cur + 1 + length w \<le> 20" by simp
  have "length (join_with '' '' ((cur @ '' '' @ w) # ws)) \<le> 20" using Cons.prems unfolding eq .
  from Cons.IH [OF this] have "pack_line (cur @ '' '' @ w) ws = (join_with '' '' ((cur @ '' '' @ w) # ws), [])" .
  with fits show ?case unfolding eq by simp
qed


lemma wrap_words_start:
  assumes "plain_word w1" "list_all plain_word rest1"
  shows "wrap_words (w1 # rest1) [] [] =
     (case pack_line w1 rest1 of
        (l1, []) \<Rightarrow> ([], l1)
      | (l1, w2 # rest2) \<Rightarrow>
          (case pack_line w2 rest2 of
             (l2, []) \<Rightarrow> ([l1], l2)
           | (l2, w3 # rest3) \<Rightarrow> ([l1, l2], w3)))"
proof -
  have t1: "tight w1" using assms(1) by (rule plain_word_tight)
  have len1: "length w1 \<le> 20" using assms(1) by (simp add: plain_word_def)
  have "trim ([] @ '' '' @ w1) = w1" using trim_tight [OF t1] by (simp add: trim_space_first)
  with len1 have first: "wrap_words (w1 # rest1) [] [] = wrap_words rest1 [] w1"
    by (simp add: Let_def)
  obtain l1 r1 where p1: "pack_line w1 rest1 = (l1, r1)" by (cases "pack_line w1 rest1")
  show ?thesis
  proof (cases r1)
    case Nil
    with p1 first wrap_words_pack [OF t1 assms(2), of "[]"] show ?thesis by simp
  next
    case (Cons w2 rest2)
    have all2: "list_all plain_word (w2 # rest2)"
      using pack_line_rest [OF p1 assms(2)] Cons by simp
    then have t2: "tight w2" and r2: "list_all plain_word rest2"
      by (auto simp: plain_word_tight)
    have step1: "wrap_words (w1 # rest1) [] [] = wrap_words rest2 [l1] w2"
      using p1 Cons first wrap_words_pack [OF t1 assms(2), of "[]"] by simp
    obtain l2 r2' where p2: "pack_line w2 rest2 = (l2, r2')" by (cases "pack_line w2 rest2")
    have "wrap_words rest2 [l1] w2 =
            (case r2' of [] \<Rightarrow> ([l1], l2) | w3 # rest3 \<Rightarrow> ([l1, l2], w3))"
      using wrap_words_pack [OF t2 r2, of "[l1]"] p2 by (simp split: list.splits)
    with step1 p1 p2 Cons show ?thesis by (simp split: list.splits)
  qed
qed

lemma more_words_more_spaces:
  "rest \<noteq> [] \<Longrightarrow>
   length (split_on CHR '' '' (a @ '' '' @ join_with '' '' (w # rest))) >
   length (split_on CHR '' '' (a @ '' '' @ w))"
  by (cases rest) (auto simp: length_split_on)

lemma leafLabel_packed:
  assumes "plain_words ws"
  shows "leafLabel (join_with '' '' ws) = Inr (join_with [LF] (packed_lines ws))"
proof -
  from assms obtain w1 rest1 where ws: "ws = w1 # rest1" and pw1: "plain_word w1"
    and prest1: "list_all plain_word rest1"
    by (cases ws) (auto simp: plain_words_def)
  have nosp: "list_all (\<lambda>w. CHR '' '' \<notin> set w) ws"
    using assms by (auto simp: plain_words_def list_all_iff plain_word_no_SPC)
  have words: "split_on SPC (join_with '' '' ws) = ws"
    using split_on_join [of ws "CHR '' ''"] nosp ws by (simp add: SPC_def)
  have t1: "tight w1" using pw1 by (rule plain_word_tight)
  obtain l1 r1 where p1: "pack_line w1 rest1 = (l1, r1)" by (cases "pack_line w1 rest1")
  have tl1: "tight l1" using pack_line_tight [OF p1 t1 prest1] .
  have text1: "join_with '' '' ws = join_with '' '' (l1 # r1)"
    using pack_line_join [OF p1] ws by simp
  show ?thesis
  proof (cases r1)
    case Nil
    have loop: "wrap_words ws [] [] = ([], l1)"
      using wrap_words_start [OF pw1 prest1] p1 Nil ws by simp
    have "join_with '' '' ws = l1" using text1 Nil by simp
    then show ?thesis
      using loop p1 Nil ws tl1 words
      by (simp add: leafLabel_def packed_lines_def tight_def Let_def)
  next
    case (Cons w2 rest2)
    have all2: "list_all plain_word (w2 # rest2)"
      using pack_line_rest [OF p1 prest1] Cons by simp
    then have t2: "tight w2" and pr2: "list_all plain_word rest2"
      by (auto simp: plain_word_tight)
    obtain l2 r2 where p2: "pack_line w2 rest2 = (l2, r2)" by (cases "pack_line w2 rest2")
    have tl2: "tight l2" using pack_line_tight [OF p2 t2 pr2] .
    have text2: "join_with '' '' ws = l1 @ '' '' @ join_with '' '' (l2 # r2)"
      using text1 Cons pack_line_join [OF p2] by simp
    show ?thesis
    proof (cases r2)
      case Nil
      have loop: "wrap_words ws [] [] = ([l1], l2)"
        using wrap_words_start [OF pw1 prest1] p1 p2 Cons Nil ws by simp
      have "join_with '' '' ws = l1 @ '' '' @ l2" using text2 Nil by simp
      then show ?thesis
        using loop p1 p2 Cons Nil ws tl2 words
        by (simp add: leafLabel_def packed_lines_def tight_def Let_def)
    next
      case c3: (Cons w3 rest3)
      have all3: "list_all plain_word (w3 # rest3)"
        using pack_line_rest [OF p2 pr2] c3 by simp
      then have ne3: "w3 \<noteq> []" by (simp add: plain_word_def)
      have loop: "wrap_words ws [] [] = ([l1, l2], w3)"
        using wrap_words_start [OF pw1 prest1] p1 p2 Cons c3 ws by simp
      have text3: "join_with '' '' ws = (l1 @ '' '' @ l2) @ '' '' @ join_with '' '' (w3 # rest3)"
        using text2 c3 by simp
      have joined: "join_with '' '' [l1, l2, w3] = (l1 @ '' '' @ l2) @ '' '' @ w3" by simp
      show ?thesis
      proof (cases "rest3 = []")
        case True
        then have "join_with '' '' ws = join_with '' '' [l1, l2, w3]" using text3 by simp
        then show ?thesis
          using loop p1 p2 Cons c3 True ws ne3 words
          by (simp add: leafLabel_def packed_lines_def Let_def)
      next
        case False
        have "length (split_on SPC (join_with '' '' ws)) > length (split_on SPC (join_with '' '' [l1, l2, w3]))"
          unfolding text3 joined SPC_def using False by (rule more_words_more_spaces)
        then have "length ws > length (split_on SPC (join_with '' '' [l1, l2, w3]))"
          using words by simp
        then show ?thesis
          using loop p1 p2 Cons c3 False ws ne3 words
          by (simp add: leafLabel_def packed_lines_def Let_def)
      qed
    qed
  qed
qed


lemma packed_lines_short:
  assumes "ws \<noteq> []" "length (join_with '' '' ws) \<le> 20"
  shows "packed_lines ws = [join_with '' '' ws]"
proof -
  from assms(1) obtain w1 rest1 where ws: "ws = w1 # rest1" by (cases ws) auto
  with assms(2) have "pack_line w1 rest1 = (join_with '' '' (w1 # rest1), [])"
    by (simp add: pack_line_all)
  with ws show ?thesis by (simp add: packed_lines_def)
qed

lemma packed_lines_bounds:
  assumes "plain_words ws"
  shows "list_all (\<lambda>l. length l \<le> 20) (packed_lines ws)"
    and "length (join_with '' '' ws) > 41 \<Longrightarrow> length (packed_lines ws) = 3"
proof -
  from assms obtain w1 rest1 where ws: "ws = w1 # rest1" and pw1: "plain_word w1"
    and prest1: "list_all plain_word rest1"
    by (cases ws) (auto simp: plain_words_def)
  obtain l1 r1 where p1: "pack_line w1 rest1 = (l1, r1)" by (cases "pack_line w1 rest1")
  have len1: "length l1 \<le> 20" using pack_line_length [OF p1] pw1 by (simp add: plain_word_def)
  have text1: "join_with '' '' ws = join_with '' '' (l1 # r1)"
    using pack_line_join [OF p1] ws by simp
  have "list_all (\<lambda>l. length l \<le> 20) (packed_lines ws)
        \<and> (length (join_with '' '' ws) > 41 \<longrightarrow> length (packed_lines ws) = 3)"
  proof (cases r1)
    case Nil
    with p1 ws len1 text1 show ?thesis by (simp add: packed_lines_def)
  next
    case (Cons w2 rest2)
    have all2: "list_all plain_word (w2 # rest2)"
      using pack_line_rest [OF p1 prest1] Cons by simp
    obtain l2 r2 where p2: "pack_line w2 rest2 = (l2, r2)" by (cases "pack_line w2 rest2")
    have len2: "length l2 \<le> 20" using pack_line_length [OF p2] all2 by (simp add: plain_word_def)
    have text2: "join_with '' '' ws = l1 @ '' '' @ join_with '' '' (l2 # r2)"
      using text1 Cons pack_line_join [OF p2] by simp
    show ?thesis
    proof (cases r2)
      case Nil
      with p1 p2 Cons ws len1 len2 text2 show ?thesis by (simp add: packed_lines_def)
    next
      case c3: (Cons w3 rest3)
      have "list_all plain_word rest2" using all2 by simp
      from pack_line_rest [OF p2 this] c3 have "plain_word w3" by simp
      then have "length w3 \<le> 20" by (simp add: plain_word_def)
      then have "length w3 - 3 \<le> 17" by arith
      with \<open>length w3 \<le> 20\<close> p1 p2 Cons c3 ws len1 len2 show ?thesis
        by (simp add: packed_lines_def)
    qed
  qed
  then show "list_all (\<lambda>l. length l \<le> 20) (packed_lines ws)"
    and "length (join_with '' '' ws) > 41 \<Longrightarrow> length (packed_lines ws) = 3"
    by simp_all
qed

text \<open>
  Claim C4, as amended. For a leaf whose text is made of plain words joined by single
  spaces, the label is the greedy packing of the words into a first and a second line of
  at most 20 characters, followed by the next word alone as third line, cut by three
  characters and closed by an ellipsis when words remain; every line has at most 20
  characters; a text of at most 20 characters is its own label (one line, no ellipsis),
  and a text of 61 characters gives exactly three lines.
\<close>

theorem leafLabel_packs_words:
  assumes "plain_words ws"
  shows "leafLabel (join_with '' '' ws) = Inr (join_with [LF] (packed_lines ws))
     \<and> list_all (\<lambda>l. length l \<le> 20) (packed_lines ws)
     \<and> (length (join_with '' '' ws) \<le> 20 \<longrightarrow> leafLabel (join_with '' '' ws) = Inr (join_with '' '' ws))
     \<and> (length (join_with '' '' ws) = 61 \<longrightarrow> length (packed_lines ws) = 3)"
proof -
  have ne: "ws \<noteq> []" using assms by (simp add: plain_words_def)
  have a: "leafLabel (join_with '' '' ws) = Inr (join_with [LF] (packed_lines ws))"
    using assms by (rule leafLabel_packed)
  have b: "list_all (\<lambda>l. length l \<le> 20) (packed_lines ws)"
    using assms by (rule packed_lines_bounds(1))
  have c: "leafLabel (join_with '' '' ws) = Inr (join_with '' '' ws)"
    if "length (join_with '' '' ws) \<le> 20"
    using a packed_lines_short [OF ne that] by simp
  have d: "length (packed_lines ws) = 3" if "length (join_with '' '' ws) = 61"
    using packed_lines_bounds(2) [OF assms] that by simp
  from a b c d show ?thesis by blast
qed

theorem leafLabel_packs_words_witness:
  "plain_words short_words \<and> leafLabel ''hello world'' = Inr ''hello world''
   \<and> plain_words long_words \<and> length (join_with '' '' long_words) = 61
   \<and> length (packed_lines long_words) = 3"
proof -
  have s: "plain_words short_words" by code_simp
  have l: "plain_words long_words" by code_simp
  have js: "join_with '' '' short_words = ''hello world''" by (simp add: short_words_def)
  have jl: "length (join_with '' '' long_words) = 61" by (simp add: long_words_def)
  have sl: "length (join_with '' '' short_words) \<le> 20" by (simp add: short_words_def)
  from leafLabel_packs_words [OF s] sl
  have "leafLabel (join_with '' '' short_words) = Inr (join_with '' '' short_words)" by blast
  then have a: "leafLabel ''hello world'' = Inr ''hello world''" unfolding js .
  from leafLabel_packs_words [OF l] jl have b: "length (packed_lines long_words) = 3" by blast
  from a b s l jl show ?thesis by blast
qed

text \<open>
  The claim C4 as stated fails. With the words a (10), b (10), c (10) and d, greedy packing
  into three lines would put d on the third line and leave no word; the loop stops when
  the second line is complete, so the third line is c alone, cut and closed by an
  ellipsis. A single word of 26 characters is a line of 26 characters.
\<close>

theorem leafLabel_third_line_single_word_counterexample:
  "leafLabel ''aaaaaaaaaa bbbbbbbbbb cccccccccc d'' = Inr (join_with [LF] [''aaaaaaaaaa'', ''bbbbbbbbbb'', ''ccccccc...''])
   \<and> leafLabel ''abcdefghijklmnopqrstuvwxyz'' = Inr ''abcdefghijklmnopqrstuvwxyz''
   \<and> length ''abcdefghijklmnopqrstuvwxyz'' = 26"
  by code_simp

section \<open>Properties of the plain-text codec\<close>

subsection \<open>The export map in closed form\<close>

text \<open>An id is mapped to the last node added under it, with the targets of its edges to known
  nodes as children.\<close>

lemma map_of_map_set: "map_of (map_set k v m) = (map_of m)(k \<mapsto> v)"
  by (induction m) auto

lemma node_last_snoc: "node_last (ns @ [n]) = (node_last ns)(n_id n \<mapsto> n)"
  by (simp add: node_last_def)

lemma node_last_id: "node_last ns r = Some n \<Longrightarrow> n_id n = r"
proof -
  assume "node_last ns r = Some n"
  then have "(r, n) \<in> set (rev (map (\<lambda>n. (n_id n, n)) ns))"
    unfolding node_last_def by (rule map_of_SomeD)
  then show ?thesis by auto
qed

lemma nodes_lookup:
  "map_of (foldl (\<lambda>m n. add_xnode n m) [] ns) r = map_option (\<lambda>n. (n, [])) (node_last ns r)"
proof (induction ns rule: rev_induct)
  case Nil
  then show ?case by (simp add: node_last_def)
next
  case (snoc n ns)
  then show ?case by (simp add: add_xnode_def map_of_map_set node_last_snoc)
qed

lemma links_lookup:
  "map_of (foldl (\<lambda>m e. link_xnode e m) (foldl (\<lambda>m n. add_xnode n m) [] ns) es) r =
     map_option (\<lambda>n. (n, kids ns es r)) (node_last ns r)"
proof (induction es arbitrary: r rule: rev_induct)
  case Nil
  then show ?case by (simp add: nodes_lookup kids_def)
next
  case (snoc e es)
  define m where "m = foldl (\<lambda>m e. link_xnode e m) (foldl (\<lambda>m n. add_xnode n m) [] ns) es"
  have IH: "\<And>x. map_of m x = map_option (\<lambda>n. (n, kids ns es x)) (node_last ns x)"
    unfolding m_def by (rule snoc.IH)
  have step: "foldl (\<lambda>m e. link_xnode e m) (foldl (\<lambda>m n. add_xnode n m) [] ns) (es @ [e]) = link_xnode e m"
    by (simp add: m_def)
  have kids_snoc: "kids ns (es @ [e]) r =
      kids ns es r @ (if e_from e = r \<and> node_last ns (e_to e) \<noteq> None then [e_to e] else [])"
    by (simp add: kids_def)
  show ?case
  proof (cases "node_last ns (e_from e)")
    case None
    then have "map_of m (e_from e) = None" by (simp add: IH)
    then have "link_xnode e m = m" by (simp add: link_xnode_def)
    moreover have "kids ns (es @ [e]) r = kids ns es r \<or> node_last ns r = None"
      using None kids_snoc by auto
    ultimately show ?thesis unfolding step using IH [of r] by auto
  next
    case (Some parent)
    then have pm: "map_of m (e_from e) = Some (parent, kids ns es (e_from e))" by (simp add: IH)
    show ?thesis
    proof (cases "node_last ns (e_to e)")
      case None
      then have "map_of m (e_to e) = None" by (simp add: IH)
      with pm have "link_xnode e m = m" by (simp add: link_xnode_def)
      moreover have "kids ns (es @ [e]) r = kids ns es r" using None kids_snoc by simp
      ultimately show ?thesis unfolding step using IH [of r] by simp
    next
      case child: (Some ch)
      then have "map_of m (e_to e) = Some (ch, kids ns es (e_to e))" by (simp add: IH)
      with pm have l: "link_xnode e m = map_set (e_from e) (parent, kids ns es (e_from e) @ [e_to e]) m"
        by (simp add: link_xnode_def)
      show ?thesis
      proof (cases "r = e_from e")
        case True
        with child Some kids_snoc show ?thesis unfolding step l by (simp add: map_of_map_set)
      next
        case False
        with kids_snoc have "kids ns (es @ [e]) r = kids ns es r" by simp
        with False show ?thesis unfolding step l using IH [of r] by (simp add: map_of_map_set)
      qed
    qed
  qed
qed

lemma export_map_lookup:
  "map_of (export_map ns es) r = map_option (\<lambda>n. (n, kids ns es r)) (node_last ns r)"
  unfolding export_map_def by (rule links_lookup)

subsection \<open>The export writes the outline text\<close>

text \<open>Where the traversal of the labels ends, \<open>buildOutline\<close> ends too and writes the outline text.\<close>

lemma kids_targets: "set (kids ns es r) \<subseteq> e_to ` set es"
  by (auto simp: kids_def)

lemma outline_agrees:
  "''root'' \<notin> e_to ` set es \<Longrightarrow> r \<noteq> ''root'' \<Longrightarrow> m = export_map ns es \<Longrightarrow>
     label_tree k m r = Some t \<Longrightarrow> buildOutline k m r lvl = Some (tree_text lvl t)"
  "''root'' \<notin> e_to ` set es \<Longrightarrow> ''root'' \<notin> set rs \<Longrightarrow> m = export_map ns es \<Longrightarrow>
     label_forest k m rs = Some ts \<Longrightarrow> buildOutline_each k m rs lvl = Some (forest_text lvl ts)"
proof (induction k m r and k m rs arbitrary: t lvl and ts lvl rule: label_tree_label_forest.induct)
  case (1 m r)
  then show ?case by simp
next
  case (2 k m r)
  from "2.prems"(4) obtain node cs F where look: "map_of m r = Some (node, cs)"
    and below: "label_forest k m cs = Some F" and t: "t = Outline (n_label node) F"
    by (auto split: option.splits)
  from look "2.prems"(3) have nl: "node_last ns r = Some node" and cs: "cs = kids ns es r"
    by (auto simp: export_map_lookup)
  have idr: "n_id node = r" using nl by (rule node_last_id)
  have "''root'' \<notin> set cs" using kids_targets [of ns es r] "2.prems"(1) cs by auto
  from "2.IH" [OF look refl "2.prems"(1) this "2.prems"(3) below]
  have "buildOutline_each k m cs (lvl + 1) = Some (forest_text (lvl + 1) F)" .
  with look idr "2.prems"(2) t show ?case by simp
next
  case (3 k m)
  then show ?case by simp
next
  case (4 k m c cs)
  from "4.prems"(4) obtain t' ts' where a: "label_tree k m c = Some t'"
    and b: "label_forest k m cs = Some ts'" and ts: "ts = t' # ts'"
    by (auto split: option.splits)
  from "4.prems"(2) have c: "c \<noteq> ''root''" and cs: "''root'' \<notin> set cs" by auto
  from "4.IH"(1) [OF "4.prems"(1) c "4.prems"(3) a]
  have x: "buildOutline k m c lvl = Some (tree_text lvl t')" .
  from "4.IH"(2) [OF a "4.prems"(1) cs "4.prems"(3) b]
  have y: "buildOutline_each k m cs lvl = Some (forest_text lvl ts')" .
  from x y ts show ?case by simp
qed

lemma export_of_outline:
  assumes "''root'' \<notin> e_to ` set es" "doc_outline ns es = Some F"
  shows "exportToPlainText ns es = Inr (export_text F)"
proof -
  define m where "m = export_map ns es"
  from assms(2) obtain lbl where lt: "label_tree (Suc (length ns)) m ''root'' = Some (Outline lbl F)"
    unfolding doc_outline_def m_def by (auto split: option.splits outline.splits)
  then obtain node cs where look: "map_of m ''root'' = Some (node, cs)"
    and below: "label_forest (length ns) m cs = Some F"
    by (auto split: option.splits)
  from look have nl: "node_last ns ''root'' = Some node" and cs: "cs = kids ns es ''root''"
    by (auto simp: m_def export_map_lookup)
  have idr: "n_id node = ''root''" using nl by (rule node_last_id)
  have nr: "''root'' \<notin> set cs" using kids_targets [of ns es "''root''"] assms(1) cs by auto
  have "buildOutline_each (length ns) m cs 0 = Some (forest_text 0 F)"
    using outline_agrees(2) [OF assms(1) nr m_def below] .
  with look idr have "buildOutline (Suc (length ns)) m ''root'' 0 = Some (forest_text 0 F)" by simp
  with look show ?thesis by (simp add: exportToPlainText_def m_def [symmetric] export_text_def)
qed

subsection \<open>The lines of the exported text\<close>

text \<open>The import sees one line per node: the header and the empty line after it are dropped.\<close>

lemma split_lines_line:
  "LF \<notin> set l \<Longrightarrow> l = [] \<or> last l \<noteq> CR \<Longrightarrow> split_lines (l @ LF # rest) = l # split_lines rest"
proof (induction l)
  case Nil
  show ?case by (cases rest) simp_all
next
  case (Cons c l)
  from Cons.prems(1) have c: "c \<noteq> LF" and l: "LF \<notin> set l" by auto
  from Cons.prems(2) have lastl: "l = [] \<or> last l \<noteq> CR" by (auto split: if_splits)
  have IH: "split_lines (l @ LF # rest) = l # split_lines rest" using Cons.IH [OF l lastl] .
  obtain d cs where dcs: "l @ LF # rest = d # cs" by (cases "l @ LF # rest") auto
  have "\<not> (c = CR \<and> d = LF)"
  proof
    assume a: "c = CR \<and> d = LF"
    show False
    proof (cases l)
      case Nil
      with a Cons.prems(2) show False by simp
    next
      case (Cons x xs)
      with dcs have "d = x" by simp
      with a l Cons show False by simp
    qed
  qed
  with c have "split_lines (c # d # cs) = push_char c (split_lines (d # cs))" by auto
  then show ?case using dcs IH by (simp add: push_char_def)
qed

lemma import_lines_line:
  assumes "LF \<notin> set l" "l = [] \<or> last l \<noteq> CR"
  shows "import_lines (l @ LF # rest) =
           (if trim l \<noteq> [] \<and> \<not> startsWith (trim l) ''#'' then [l] else []) @ import_lines rest"
  using split_lines_line [OF assms] by (simp add: import_lines_def)

lemma import_lines_empty: "import_lines [] = []"
  by (simp add: import_lines_def trim_def)

lemma indent_spaces: "set (indent_str d) \<subseteq> {CHR '' ''}"
  by (induction d) (auto simp: indent_str_def)

lemma length_indent: "length (indent_str d) = 2 * d"
  by (induction d) (auto simp: indent_str_def)

lemma indent_all_space: "x \<in> set (indent_str d) \<Longrightarrow> is_space x"
  using indent_spaces [of d] is_space_SPC by auto

lemma trim_clean: "clean_label l \<Longrightarrow> trim (indent_str d @ l) = l"
proof -
  assume c: "clean_label l"
  then obtain x xs where l: "l = x # xs" and x: "\<not> is_space x" by (cases l) (auto simp: clean_label_def)
  have "dropWhile is_space (indent_str d @ l) = dropWhile is_space l"
    by (rule dropWhile_append2) (rule indent_all_space)
  also have "\<dots> = l" using l x by simp
  finally have a: "dropWhile is_space (indent_str d @ l) = l" .
  from c have "rev l \<noteq> []" "\<not> is_space (hd (rev l))" by (auto simp: clean_label_def hd_rev)
  then have "dropWhile is_space (rev l) = rev l" by (cases "rev l") auto
  with a show ?thesis by (simp add: trim_def)
qed

lemma leading_ws_clean: "clean_label l \<Longrightarrow> leading_ws (indent_str d @ l) = indent_str d"
proof -
  assume c: "clean_label l"
  then obtain x xs where l: "l = x # xs" and x: "\<not> is_space x" by (cases l) (auto simp: clean_label_def)
  have "takeWhile is_space (indent_str d @ l) = indent_str d @ takeWhile is_space l"
    by (rule takeWhile_append2) (rule indent_all_space)
  with l x show ?thesis by (simp add: leading_ws_def)
qed

lemma row_kept:
  assumes "clean_label l"
  shows "import_lines ((indent_str d @ l) @ LF # rest) = (indent_str d @ l) # import_lines rest"
proof -
  have nolf: "LF \<notin> set (indent_str d @ l)"
    using assms indent_spaces [of d] by (auto simp: clean_label_def LF_def)
  from assms have ne: "l \<noteq> []" and lst: "\<not> is_space (last l)" by (auto simp: clean_label_def)
  have "is_space CR" by (simp add: is_space_def CR_def)
  with lst have "last l \<noteq> CR" by auto
  with ne have nocr: "indent_str d @ l = [] \<or> last (indent_str d @ l) \<noteq> CR" by simp
  have t: "trim (indent_str d @ l) = l" using assms by (rule trim_clean)
  from assms obtain x xs where l: "l = x # xs" and x: "x \<noteq> CHR ''#''"
    by (cases l) (auto simp: clean_label_def)
  then have "\<not> startsWith l ''#''" by simp
  with import_lines_line [OF nolf nocr, of rest] t ne show ?thesis by simp
qed

lemma import_lines_text:
  "clean_tree t \<Longrightarrow> import_lines (tree_text d t @ rest) = map row_line (tree_rows d t) @ import_lines rest"
  "clean_forest ts \<Longrightarrow> import_lines (forest_text d ts @ rest) = map row_line (forest_rows d ts) @ import_lines rest"
proof (induction d t and d ts arbitrary: rest and rest rule: tree_text_forest_text.induct)
  case (1 lvl l cs)
  from "1.prems" have cl: "clean_label l" and cf: "clean_forest cs" by simp_all
  have "import_lines (tree_text lvl (Outline l cs) @ rest)
        = import_lines ((indent_str lvl @ l) @ LF # (forest_text (lvl + 1) cs @ rest))" by simp
  also have "\<dots> = (indent_str lvl @ l) # import_lines (forest_text (lvl + 1) cs @ rest)"
    using cl by (rule row_kept)
  also have "\<dots> = (indent_str lvl @ l) # map row_line (forest_rows (lvl + 1) cs) @ import_lines rest"
    using "1.IH" [OF cf] by simp
  finally show ?case by (simp add: row_line_def)
next
  case (2 lvl)
  then show ?case by simp
next
  case (3 lvl t ts)
  from "3.prems" have ct: "clean_tree t" and cf: "clean_forest ts" by simp_all
  show ?case using "3.IH"(1) [OF ct] "3.IH"(2) [OF cf] by simp
qed

lemma import_lines_header: "import_lines (export_header @ body) = import_lines body"
proof -
  have a: "import_lines (''# Mind Map Export'' @ LF # (LF # body)) = import_lines (LF # body)"
    by (subst import_lines_line) (simp_all add: LF_def CR_def trim_def is_space_def)
  have b: "import_lines ([] @ LF # body) = import_lines body"
    by (subst import_lines_line) (simp_all add: trim_def)
  from a b show ?thesis by (simp add: export_header_def)
qed

lemma import_lines_export:
  "clean_forest F \<Longrightarrow> import_lines (export_text F) = map row_line (forest_rows 0 F)"
  using import_lines_text(2) [of F 0 "[]"]
  by (simp add: export_text_def import_lines_header import_lines_empty)

subsection \<open>The import loop\<close>

text \<open>Reading the rows of a forest appends its nodes and edges in document order and leaves the
  stack ready for the next sibling.\<close>

lemma pop_ids_found:
  "tp # below = hi @ (p, lvl - 1) # base \<Longrightarrow> list_all (\<lambda>x. snd x \<ge> lvl) hi \<Longrightarrow>
     pop_ids lvl tp below = ((p, lvl - 1), base)"
proof (induction hi arbitrary: tp below)
  case Nil
  then show ?case by (cases base) auto
next
  case (Cons h hi)
  from Cons.prems(1) have tp: "tp = h" and below: "below = hi @ (p, lvl - 1) # base" by simp_all
  have "below \<noteq> []" using below by simp
  then obtain b rest where br: "below = b # rest" by (cases below) blast+
  from Cons.prems(2) tp have ge: "snd tp \<ge> lvl" and rest: "list_all (\<lambda>x. snd x \<ge> lvl) hi" by simp_all
  from br below have "b # rest = hi @ (p, lvl - 1) # base" by simp
  from Cons.IH [OF this rest] ge br show ?case by simp
qed

lemma replace_tabs_none: "TAB \<notin> set s \<Longrightarrow> replace_tabs r s = s"
  by (induction s) (auto simp: replace_tabs_def)

lemma import_line_row:
  assumes "clean_label l" "ready st d p base"
  shows "import_line st (row_line (d, l)) =
           \<lparr>ti_nodes = ti_nodes st @ [import_node (task_id (ti_nodeId st)) l (int d + 1)],
            ti_edges = ti_edges st @ [import_edge p (task_id (ti_nodeId st)) d],
            ti_nodeId = ti_nodeId st + 1,
            ti_top = (task_id (ti_nodeId st), int d),
            ti_below = (p, int d - 1) # base\<rparr>"
proof -
  have ws: "leading_ws (indent_str d @ l) = indent_str d" using assms(1) by (rule leading_ws_clean)
  have "TAB \<notin> set (indent_str d)" using indent_spaces [of d] by (auto simp: TAB_def)
  then have "replace_tabs ''  '' (indent_str d) = indent_str d" by (rule replace_tabs_none)
  with ws have lvl: "int (length (replace_tabs ''  '' (leading_ws (indent_str d @ l))) div 2) = int d"
    by (simp add: length_indent)
  have t: "trim (indent_str d @ l) = l" using assms(1) by (rule trim_clean)
  have ne: "l \<noteq> []" using assms(1) by (simp add: clean_label_def)
  from assms(2) obtain hi where "ti_top st # ti_below st = hi @ (p, int d - 1) # base"
    and "list_all (\<lambda>x. snd x \<ge> int d) hi" unfolding ready_def by blast
  then have pop: "pop_ids (int d) (ti_top st) (ti_below st) = ((p, int d - 1), base)"
    by (rule pop_ids_found)
  show ?thesis
    unfolding import_line_def row_line_def fst_conv snd_conv lvl t
    using ne pop by (simp add: Let_def import_edge_def)
qed

lemma import_rows:
  "clean_tree t \<Longrightarrow> ready st d p base \<Longrightarrow>
     ti_nodes (foldl import_line st (map row_line (tree_rows d t))) = ti_nodes st @ tree_nodes d (ti_nodeId st) t
     \<and> ti_edges (foldl import_line st (map row_line (tree_rows d t))) = ti_edges st @ tree_edges d p (ti_nodeId st) t
     \<and> ti_nodeId (foldl import_line st (map row_line (tree_rows d t))) = ti_nodeId st + sz t
     \<and> ready (foldl import_line st (map row_line (tree_rows d t))) d p base"
  "clean_forest ts \<Longrightarrow> ready st d p base \<Longrightarrow>
     ti_nodes (foldl import_line st (map row_line (forest_rows d ts))) = ti_nodes st @ forest_nodes d (ti_nodeId st) ts
     \<and> ti_edges (foldl import_line st (map row_line (forest_rows d ts))) = ti_edges st @ forest_edges d p (ti_nodeId st) ts
     \<and> ti_nodeId (foldl import_line st (map row_line (forest_rows d ts))) = ti_nodeId st + fsz ts
     \<and> ready (foldl import_line st (map row_line (forest_rows d ts))) d p base"
proof (induction d t and d ts arbitrary: st p base and st p base rule: tree_rows_forest_rows.induct)
  case (1 d l cs)
  from "1.prems"(1) have cl: "clean_label l" and cf: "clean_forest cs" by simp_all
  define st1 where "st1 = import_line st (row_line (d, l))"
  have st1: "st1 = \<lparr>ti_nodes = ti_nodes st @ [import_node (task_id (ti_nodeId st)) l (int d + 1)],
            ti_edges = ti_edges st @ [import_edge p (task_id (ti_nodeId st)) d],
            ti_nodeId = ti_nodeId st + 1,
            ti_top = (task_id (ti_nodeId st), int d),
            ti_below = (p, int d - 1) # base\<rparr>"
    unfolding st1_def using cl "1.prems"(2) by (rule import_line_row)
  have r1: "ready st1 (d + 1) (task_id (ti_nodeId st)) ((p, int d - 1) # base)"
    unfolding ready_def st1 by (intro exI [of _ "[]"]) simp
  define st2 where "st2 = foldl import_line st1 (map row_line (forest_rows (d + 1) cs))"
  from "1.IH" [OF cf r1]
  have n2: "ti_nodes st2 = ti_nodes st1 @ forest_nodes (d + 1) (ti_nodeId st1) cs"
    and e2: "ti_edges st2 = ti_edges st1 @ forest_edges (d + 1) (task_id (ti_nodeId st)) (ti_nodeId st1) cs"
    and i2: "ti_nodeId st2 = ti_nodeId st1 + fsz cs"
    and r2: "ready st2 (d + 1) (task_id (ti_nodeId st)) ((p, int d - 1) # base)"
    unfolding st2_def by simp_all
  from r2 obtain hi where s2: "ti_top st2 # ti_below st2 = hi @ (task_id (ti_nodeId st), int (d + 1) - 1) # (p, int d - 1) # base"
    and hi: "list_all (\<lambda>x. snd x \<ge> int (d + 1)) hi" unfolding ready_def by blast
  have "ready st2 d p base"
    unfolding ready_def
  proof (intro exI conjI)
    show "ti_top st2 # ti_below st2 = (hi @ [(task_id (ti_nodeId st), int d)]) @ (p, int d - 1) # base"
      using s2 by simp
    show "list_all (\<lambda>x. snd x \<ge> int d) (hi @ [(task_id (ti_nodeId st), int d)])"
      using hi by (auto simp: list_all_iff)
  qed
  moreover have "foldl import_line st (map row_line (tree_rows d (Outline l cs))) = st2"
    by (simp add: st2_def st1_def)
  ultimately show ?case using n2 e2 i2 by (simp add: st1)
next
  case (2 d)
  then show ?case by simp
next
  case (3 d t ts)
  from "3.prems"(1) have ct: "clean_tree t" and cf: "clean_forest ts" by simp_all
  define st1 where "st1 = foldl import_line st (map row_line (tree_rows d t))"
  from "3.IH"(1) [OF ct "3.prems"(2)]
  have n1: "ti_nodes st1 = ti_nodes st @ tree_nodes d (ti_nodeId st) t"
    and e1: "ti_edges st1 = ti_edges st @ tree_edges d p (ti_nodeId st) t"
    and i1: "ti_nodeId st1 = ti_nodeId st + sz t"
    and r1: "ready st1 d p base"
    unfolding st1_def by simp_all
  define st2 where "st2 = foldl import_line st1 (map row_line (forest_rows d ts))"
  from "3.IH"(2) [OF cf r1]
  have n2: "ti_nodes st2 = ti_nodes st1 @ forest_nodes d (ti_nodeId st1) ts"
    and e2: "ti_edges st2 = ti_edges st1 @ forest_edges d p (ti_nodeId st1) ts"
    and i2: "ti_nodeId st2 = ti_nodeId st1 + fsz ts"
    and r2: "ready st2 d p base"
    unfolding st2_def by simp_all
  have "foldl import_line st (map row_line (forest_rows d (t # ts))) = st2"
    by (simp add: st2_def st1_def)
  then show ?case using n1 e1 i1 n2 e2 i2 r2 by simp
qed

subsection \<open>The ids are distinct\<close>

lemma string_of_nat_nonempty: "string_of_nat n \<noteq> []"
  by (subst string_of_nat.simps) simp

lemma digit_inj: "a < 10 \<Longrightarrow> b < 10 \<Longrightarrow> char_of (48 + a) = (char_of (48 + b) :: char) \<Longrightarrow> a = (b::nat)"
proof -
  assume a: "a < 10" and b: "b < 10" and eq: "char_of (48 + a) = (char_of (48 + b) :: char)"
  from eq have "of_char (char_of (48 + a) :: char) = (of_char (char_of (48 + b) :: char) :: nat)" by simp
  then have "(48 + a) mod 256 = (48 + b) mod 256" by simp
  with a b show ?thesis by simp
qed

lemma string_of_nat_inj: "string_of_nat n = string_of_nat m \<Longrightarrow> n = m"
proof (induction n arbitrary: m rule: string_of_nat.induct)
  case (1 n)
  show ?case
  proof (cases "n < 10")
    case True
    then have sn: "string_of_nat n = [char_of (48 + n)]" by (subst string_of_nat.simps) simp
    show ?thesis
    proof (cases "m < 10")
      case mt: True
      then have "string_of_nat m = [char_of (48 + m)]" by (subst string_of_nat.simps) simp
      with sn "1.prems" True mt show ?thesis by (simp add: digit_inj)
    next
      case False
      then have "string_of_nat m = string_of_nat (m div 10) @ [char_of (48 + m mod 10)]"
        by (subst string_of_nat.simps) simp
      with sn "1.prems" string_of_nat_nonempty [of "m div 10"] show ?thesis by simp
    qed
  next
    case False
    then have sn: "string_of_nat n = string_of_nat (n div 10) @ [char_of (48 + n mod 10)]"
      by (subst string_of_nat.simps) simp
    show ?thesis
    proof (cases "m < 10")
      case True
      then have "string_of_nat m = [char_of (48 + m)]" by (subst string_of_nat.simps) simp
      with sn "1.prems" string_of_nat_nonempty [of "n div 10"] show ?thesis by simp
    next
      case mf: False
      then have "string_of_nat m = string_of_nat (m div 10) @ [char_of (48 + m mod 10)]"
        by (subst string_of_nat.simps) simp
      with sn "1.prems" have hd: "string_of_nat (n div 10) = string_of_nat (m div 10)"
        and lst: "char_of (48 + n mod 10) = (char_of (48 + m mod 10) :: char)" by simp_all
      from "1.IH" [OF False hd] have d: "n div 10 = m div 10" .
      from lst have r: "n mod 10 = m mod 10" by (rule digit_inj [rotated 2]) simp_all
      from d r show ?thesis by (metis div_mult_mod_eq)
    qed
  qed
qed

lemma task_id_inj: "task_id n = task_id m \<Longrightarrow> n = m"
  by (simp add: task_id_def string_of_nat_inj)

lemma task_id_not_root: "task_id n \<noteq> ''root''"
  by (simp add: task_id_def)

lemma out_of_append: "out_of (a @ b) q = out_of a q @ out_of b q"
  by (simp add: out_of_def)

lemma out_of_none: "(\<And>e. e \<in> set es \<Longrightarrow> e_from e \<noteq> q) \<Longrightarrow> out_of es q = []"
  by (induction es) (auto simp: out_of_def)

lemma edge_sources:
  "e \<in> set (tree_edges d p n t) \<Longrightarrow> e_from e = p \<or> (\<exists>j. n \<le> j \<and> j < n + sz t \<and> e_from e = task_id j)"
  "e \<in> set (forest_edges d p n ts) \<Longrightarrow> e_from e = p \<or> (\<exists>j. n \<le> j \<and> j < n + fsz ts \<and> e_from e = task_id j)"
proof (induction d p n t and d p n ts rule: tree_edges_forest_edges.induct)
  case (1 d p n l cs)
  from "1.prems" consider "e = import_edge p (task_id n) d"
    | "e \<in> set (forest_edges (d + 1) (task_id n) (n + 1) cs)" by auto
  then show ?case
  proof cases
    case 1
    then show ?thesis by (simp add: import_edge_def)
  next
    case 2
    from "1.IH" [OF 2] show ?thesis
    proof
      assume "e_from e = task_id n"
      then have "n \<le> n \<and> n < n + sz (Outline l cs) \<and> e_from e = task_id n" by simp
      then show ?thesis by blast
    next
      assume "\<exists>j. n + 1 \<le> j \<and> j < n + 1 + fsz cs \<and> e_from e = task_id j"
      then obtain j where "n + 1 \<le> j" "j < n + 1 + fsz cs" "e_from e = task_id j" by blast
      then have "n \<le> j \<and> j < n + sz (Outline l cs) \<and> e_from e = task_id j" by simp
      then show ?thesis by blast
    qed
  qed
next
  case (2 d p n)
  then show ?case by simp
next
  case (3 d p n t ts)
  from "3.prems" consider "e \<in> set (tree_edges d p n t)"
    | "e \<in> set (forest_edges d p (n + sz t) ts)" by auto
  then show ?case
  proof cases
    case 1
    from "3.IH"(1) [OF 1] show ?thesis
    proof
      assume "e_from e = p" then show ?thesis by simp
    next
      assume "\<exists>j. n \<le> j \<and> j < n + sz t \<and> e_from e = task_id j"
      then obtain j where "n \<le> j" "j < n + sz t" "e_from e = task_id j" by blast
      then have "n \<le> j \<and> j < n + fsz (t # ts) \<and> e_from e = task_id j" by simp
      then show ?thesis by blast
    qed
  next
    case 2
    from "3.IH"(2) [OF 2] show ?thesis
    proof
      assume "e_from e = p" then show ?thesis by simp
    next
      assume "\<exists>j. n + sz t \<le> j \<and> j < n + sz t + fsz ts \<and> e_from e = task_id j"
      then obtain j where "n + sz t \<le> j" "j < n + sz t + fsz ts" "e_from e = task_id j" by blast
      then have "n \<le> j \<and> j < n + fsz (t # ts) \<and> e_from e = task_id j" by simp
      then show ?thesis by blast
    qed
  qed
qed

subsection \<open>The imported document holds the forest\<close>

lemma out_of_roots:
  "(\<And>j. n \<le> j \<Longrightarrow> j < n + fsz ts \<Longrightarrow> p \<noteq> task_id j) \<Longrightarrow> out_of (forest_edges d p n ts) p = roots n ts"
proof (induction ts arbitrary: n)
  case Nil
  then show ?case by (simp add: out_of_def)
next
  case (Cons t ts)
  obtain l cs where t: "t = Outline l cs" by (cases t)
  have inner: "out_of (forest_edges (d + 1) (task_id n) (n + 1) cs) p = []"
  proof (rule out_of_none)
    fix e assume "e \<in> set (forest_edges (d + 1) (task_id n) (n + 1) cs)"
    from edge_sources(2) [OF this] show "e_from e \<noteq> p"
    proof
      assume "e_from e = task_id n"
      moreover have "p \<noteq> task_id n" by (rule Cons.prems) (simp_all add: t)
      ultimately show ?thesis by simp
    next
      assume "\<exists>j. n + 1 \<le> j \<and> j < n + 1 + fsz cs \<and> e_from e = task_id j"
      then obtain j where j: "n + 1 \<le> j" "j < n + 1 + fsz cs" and f: "e_from e = task_id j" by blast
      have "p \<noteq> task_id j" by (rule Cons.prems) (use j t in simp_all)
      with f show ?thesis by simp
    qed
  qed
  have rest: "out_of (forest_edges d p (n + sz t) ts) p = roots (n + sz t) ts"
  proof (rule Cons.IH)
    fix j assume "n + sz t \<le> j" "j < n + sz t + fsz ts"
    then show "p \<noteq> task_id j" by (intro Cons.prems) simp_all
  qed
  have "out_of (tree_edges d p n t) p = [task_id n]"
    using inner by (simp add: t out_of_def import_edge_def)
  with rest show ?case by (simp add: out_of_append)
qed

lemma node_ids_range:
  "map n_id (tree_nodes d n t) = map task_id [n..<n + sz t]"
  "map n_id (forest_nodes d n ts) = map task_id [n..<n + fsz ts]"
proof (induction d n t and d n ts rule: tree_nodes_forest_nodes.induct)
  case (1 d n l cs)
  have "[n..<n + sz (Outline l cs)] = n # [n + 1..<n + 1 + fsz cs]"
    by (simp add: upt_conv_Cons)
  with "1.IH" show ?case by (simp add: import_node_def)
next
  case (2 d n)
  then show ?case by simp
next
  case (3 d n t ts)
  have "[n..<n + fsz (t # ts)] = [n..<n + sz t] @ [n + sz t..<n + sz t + fsz ts]"
    using upt_add_eq_append [of n "n + sz t" "fsz ts"] by (simp add: add.assoc)
  with "3.IH" show ?case by simp
qed

lemma edge_targets:
  "map e_to (tree_edges d p n t) = map n_id (tree_nodes d n t)"
  "map e_to (forest_edges d p n ts) = map n_id (forest_nodes d n ts)"
  by (induction d p n t and d p n ts rule: tree_edges_forest_edges.induct)
     (simp_all add: import_edge_def import_node_def)

lemma distinct_task_ids: "distinct (map task_id [n..<m])"
  by (simp add: distinct_map inj_on_def task_id_inj)

lemma distinct_imported: "distinct (map n_id (imported_nodes F))"
proof -
  have "''root'' \<notin> set (map task_id [0..<0 + fsz F])"
  proof
    assume "''root'' \<in> set (map task_id [0..<0 + fsz F])"
    then obtain x where "''root'' = task_id x" by auto
    with task_id_not_root [of x] show False by simp
  qed
  then show ?thesis
    using distinct_task_ids [of 0 "0 + fsz F"]
    by (simp add: imported_nodes_def node_ids_range(2) import_root_def del: set_map)
qed

lemma node_last_member:
  assumes "distinct (map n_id ns)" "n \<in> set ns"
  shows "node_last ns (n_id n) = Some n"
proof -
  have d: "distinct (map fst (rev (map (\<lambda>n. (n_id n, n)) ns)))"
    using assms(1) by (simp add: rev_map [symmetric] comp_def)
  have "(n_id n, n) \<in> set (rev (map (\<lambda>n. (n_id n, n)) ns))" using assms(2) by auto
  with d show ?thesis unfolding node_last_def by (rule map_of_is_SomeI)
qed

lemma node_last_known: "x \<in> set (map n_id ns) \<Longrightarrow> node_last ns x \<noteq> None"
proof -
  assume "x \<in> set (map n_id ns)"
  then have "x \<in> fst ` set (rev (map (\<lambda>n. (n_id n, n)) ns))" by force
  then show ?thesis unfolding node_last_def by (simp add: map_of_eq_None_iff)
qed

lemma kids_imported: "kids (imported_nodes F) (imported_edges F) q = out_of (imported_edges F) q"
proof -
  have "node_last (imported_nodes F) (e_to e) \<noteq> None" if "e \<in> set (imported_edges F)" for e
  proof (rule node_last_known)
    from that have "e_to e \<in> set (map e_to (forest_edges 0 ''root'' 0 F))"
      by (simp add: imported_edges_def)
    then show "e_to e \<in> set (map n_id (imported_nodes F))"
      by (simp add: edge_targets(2) imported_nodes_def del: set_map)
  qed
  then have "filter (\<lambda>e. e_from e = q \<and> node_last (imported_nodes F) (e_to e) \<noteq> None) (imported_edges F)
        = filter (\<lambda>e. e_from e = q) (imported_edges F)"
    by (intro filter_cong) auto
  then show ?thesis by (simp add: kids_def out_of_def)
qed

lemma unfold_at:
  "tree_at (map_of m) n t \<Longrightarrow> sz t \<le> k \<Longrightarrow> label_tree k m (task_id n) = Some t"
  "forest_at (map_of m) n ts \<Longrightarrow> fsz ts \<le> k \<Longrightarrow> label_forest k m (roots n ts) = Some ts"
proof (induction t and ts arbitrary: n k and n k rule: sz_fsz.induct)
  case (1 l cs)
  from "1.prems"(2) obtain k' where k: "k = Suc k'" and le: "fsz cs \<le> k'" by (cases k) auto
  from "1.prems"(1) obtain node where look: "map_of m (task_id n) = Some (node, roots (n + 1) cs)"
    and lbl: "n_label node = l" and below: "forest_at (map_of m) (n + 1) cs" by auto
  from "1.IH" [OF below le] look lbl k show ?case by simp
next
  case 2
  then show ?case by simp
next
  case (3 t ts)
  from "3.prems"(1) have a: "tree_at (map_of m) n t" and b: "forest_at (map_of m) (n + sz t) ts" by simp_all
  from "3.prems"(2) have la: "sz t \<le> k" and lb: "fsz ts \<le> k" by simp_all
  from "3.IH"(1) [OF a la] "3.IH"(2) [OF b lb] show ?case by simp
qed

lemma imported_at:
  "set (tree_nodes d n t) \<subseteq> set NS \<Longrightarrow> distinct (map n_id NS) \<Longrightarrow>
     (\<And>j. n \<le> j \<Longrightarrow> j < n + sz t \<Longrightarrow> out_of ES (task_id j) = out_of (tree_edges d p n t) (task_id j)) \<Longrightarrow>
     (\<And>j. n \<le> j \<Longrightarrow> j < n + sz t \<Longrightarrow> p \<noteq> task_id j) \<Longrightarrow>
     tree_at (\<lambda>r. map_option (\<lambda>x. (x, out_of ES r)) (node_last NS r)) n t"
  "set (forest_nodes d n ts) \<subseteq> set NS \<Longrightarrow> distinct (map n_id NS) \<Longrightarrow>
     (\<And>j. n \<le> j \<Longrightarrow> j < n + fsz ts \<Longrightarrow> out_of ES (task_id j) = out_of (forest_edges d p n ts) (task_id j)) \<Longrightarrow>
     (\<And>j. n \<le> j \<Longrightarrow> j < n + fsz ts \<Longrightarrow> p \<noteq> task_id j) \<Longrightarrow>
     forest_at (\<lambda>r. map_option (\<lambda>x. (x, out_of ES r)) (node_last NS r)) n ts"
proof (induction d p n t and d p n ts rule: tree_edges_forest_edges.induct)
  case (1 d p n l cs)
  let ?node = "import_node (task_id n) l (int d + 1)"
  have mem: "?node \<in> set NS" using "1.prems"(1) by simp
  have "node_last NS (n_id ?node) = Some ?node" using "1.prems"(2) mem by (rule node_last_member)
  then have nl: "node_last NS (task_id n) = Some ?node" by (simp add: import_node_def)
  have pn: "p \<noteq> task_id n" by (rule "1.prems"(4)) simp_all
  have "out_of ES (task_id n) = out_of (tree_edges d p n (Outline l cs)) (task_id n)"
    by (rule "1.prems"(3)) simp_all
  also have "\<dots> = out_of (forest_edges (d + 1) (task_id n) (n + 1) cs) (task_id n)"
    using pn by (simp add: out_of_def import_edge_def)
  also have "\<dots> = roots (n + 1) cs"
  proof (rule out_of_roots)
    fix j assume "n + 1 \<le> j" "j < n + 1 + fsz cs"
    then have "n \<noteq> j" by simp
    then show "task_id n \<noteq> task_id j" using task_id_inj by blast
  qed
  finally have ks: "out_of ES (task_id n) = roots (n + 1) cs" .
  have below: "forest_at (\<lambda>r. map_option (\<lambda>x. (x, out_of ES r)) (node_last NS r)) (n + 1) cs"
  proof (rule "1.IH")
    show "set (forest_nodes (d + 1) (n + 1) cs) \<subseteq> set NS" using "1.prems"(1) by simp
    show "distinct (map n_id NS)" by (rule "1.prems"(2))
  next
    fix j assume j: "n + 1 \<le> j" "j < n + 1 + fsz cs"
    have pj: "p \<noteq> task_id j" by (rule "1.prems"(4)) (use j in simp_all)
    have "out_of ES (task_id j) = out_of (tree_edges d p n (Outline l cs)) (task_id j)"
      by (rule "1.prems"(3)) (use j in simp_all)
    also have "\<dots> = out_of (forest_edges (d + 1) (task_id n) (n + 1) cs) (task_id j)"
      using pj by (simp add: out_of_def import_edge_def)
    finally show "out_of ES (task_id j) = out_of (forest_edges (d + 1) (task_id n) (n + 1) cs) (task_id j)" .
    from j have "n \<noteq> j" by simp
    then show "task_id n \<noteq> task_id j" using task_id_inj by blast
  qed
  have "n_label ?node = l" by (simp add: import_node_def)
  with nl ks below show ?case by simp
next
  case (2 d p n)
  then show ?case by simp
next
  case (3 d p n t ts)
  have first: "tree_at (\<lambda>r. map_option (\<lambda>x. (x, out_of ES r)) (node_last NS r)) n t"
  proof (rule "3.IH"(1))
    show "set (tree_nodes d n t) \<subseteq> set NS" using "3.prems"(1) by simp
    show "distinct (map n_id NS)" by (rule "3.prems"(2))
  next
    fix j assume j: "n \<le> j" "j < n + sz t"
    show pj: "p \<noteq> task_id j" by (rule "3.prems"(4)) (use j in simp_all)
    have none: "out_of (forest_edges d p (n + sz t) ts) (task_id j) = []"
    proof (rule out_of_none)
      fix e assume "e \<in> set (forest_edges d p (n + sz t) ts)"
      from edge_sources(2) [OF this] show "e_from e \<noteq> task_id j"
      proof
        assume "e_from e = p" with pj show ?thesis by simp
      next
        assume "\<exists>i. n + sz t \<le> i \<and> i < n + sz t + fsz ts \<and> e_from e = task_id i"
        then obtain i where i: "n + sz t \<le> i" and f: "e_from e = task_id i" by blast
        from i j have "i \<noteq> j" by simp
        then have "task_id i \<noteq> task_id j" using task_id_inj by blast
        with f show ?thesis by simp
      qed
    qed
    have "out_of ES (task_id j) = out_of (forest_edges d p n (t # ts)) (task_id j)"
      by (rule "3.prems"(3)) (use j in simp_all)
    with none show "out_of ES (task_id j) = out_of (tree_edges d p n t) (task_id j)"
      by (simp add: out_of_append)
  qed
  have rest: "forest_at (\<lambda>r. map_option (\<lambda>x. (x, out_of ES r)) (node_last NS r)) (n + sz t) ts"
  proof (rule "3.IH"(2))
    show "set (forest_nodes d (n + sz t) ts) \<subseteq> set NS" using "3.prems"(1) by simp
    show "distinct (map n_id NS)" by (rule "3.prems"(2))
  next
    fix j assume j: "n + sz t \<le> j" "j < n + sz t + fsz ts"
    show pj: "p \<noteq> task_id j" by (rule "3.prems"(4)) (use j in simp_all)
    have none: "out_of (tree_edges d p n t) (task_id j) = []"
    proof (rule out_of_none)
      fix e assume "e \<in> set (tree_edges d p n t)"
      from edge_sources(1) [OF this] show "e_from e \<noteq> task_id j"
      proof
        assume "e_from e = p" with pj show ?thesis by simp
      next
        assume "\<exists>i. n \<le> i \<and> i < n + sz t \<and> e_from e = task_id i"
        then obtain i where i: "i < n + sz t" and f: "e_from e = task_id i" by blast
        from i j have "i \<noteq> j" by simp
        then have "task_id i \<noteq> task_id j" using task_id_inj by blast
        with f show ?thesis by simp
      qed
    qed
    have "out_of ES (task_id j) = out_of (forest_edges d p n (t # ts)) (task_id j)"
      by (rule "3.prems"(3)) (use j in simp_all)
    with none show "out_of ES (task_id j) = out_of (forest_edges d p (n + sz t) ts) (task_id j)"
      by (simp add: out_of_append)
  qed
  from first rest show ?case by simp
qed

lemma imported_lookup:
  "map_of (export_map (imported_nodes F) (imported_edges F)) =
     (\<lambda>r. map_option (\<lambda>x. (x, out_of (imported_edges F) r)) (node_last (imported_nodes F) r))"
  by (rule ext) (simp add: export_map_lookup kids_imported)

lemma doc_outline_imported: "doc_outline (imported_nodes F) (imported_edges F) = Some F"
proof -
  let ?m = "export_map (imported_nodes F) (imported_edges F)"
  have at: "forest_at (map_of ?m) 0 F"
    unfolding imported_lookup
  proof (rule imported_at(2) [where d = 0 and p = "''root''"])
    show "set (forest_nodes 0 0 F) \<subseteq> set (imported_nodes F)" by (auto simp: imported_nodes_def)
    show "distinct (map n_id (imported_nodes F))" by (rule distinct_imported)
  next
    fix j
    show "out_of (imported_edges F) (task_id j) = out_of (forest_edges 0 ''root'' 0 F) (task_id j)"
      by (simp add: imported_edges_def)
    show "''root'' \<noteq> task_id j" using task_id_not_root [of j] by simp
  qed
  have len: "length (imported_nodes F) = Suc (fsz F)"
    using arg_cong [OF node_ids_range(2) [of 0 0 F], of length] by (simp add: imported_nodes_def)
  have forest: "label_forest (length (imported_nodes F)) ?m (roots 0 F) = Some F"
    by (rule unfold_at(2) [OF at]) (simp add: len)
  have "import_root ''Mind Map'' \<in> set (imported_nodes F)" by (simp add: imported_nodes_def)
  with distinct_imported have "node_last (imported_nodes F) (n_id (import_root ''Mind Map'')) = Some (import_root ''Mind Map'')"
    by (rule node_last_member)
  then have nl: "node_last (imported_nodes F) ''root'' = Some (import_root ''Mind Map'')"
    by (simp add: import_root_def)
  have "out_of (imported_edges F) ''root'' = roots 0 F"
    unfolding imported_edges_def
  proof (rule out_of_roots)
    fix j show "''root'' \<noteq> task_id j" using task_id_not_root [of j] by simp
  qed
  with nl have look: "map_of ?m ''root'' = Some (import_root ''Mind Map'', roots 0 F)"
    by (simp add: imported_lookup)
  from look forest show ?thesis by (simp add: doc_outline_def)
qed

lemma forest_rows_nonempty: "F \<noteq> [] \<Longrightarrow> forest_rows d F \<noteq> []"
proof (cases F)
  case Nil
  assume "F \<noteq> []" with Nil show ?thesis by simp
next
  case (Cons t ts)
  obtain l cs where "t = Outline l cs" by (cases t)
  with Cons show ?thesis by simp
qed

lemma importFromText_export:
  assumes "clean_forest F" "F \<noteq> []"
  shows "importFromText (export_text F) = Some \<lparr>i_nodes = imported_nodes F, i_edges = imported_edges F\<rparr>"
proof -
  let ?st0 = "\<lparr>ti_nodes = [import_root ''Mind Map''], ti_edges = [], ti_nodeId = 0,
               ti_top = (''root'', -1), ti_below = []\<rparr>"
  have lines: "import_lines (export_text F) = map row_line (forest_rows 0 F)"
    using assms(1) by (rule import_lines_export)
  have ne: "map row_line (forest_rows 0 F) \<noteq> []" using forest_rows_nonempty [OF assms(2)] by simp
  have r: "ready ?st0 0 ''root'' []" unfolding ready_def by (intro exI [of _ "[]"]) simp
  from import_rows(2) [OF assms(1) r]
  have "ti_nodes (foldl import_line ?st0 (map row_line (forest_rows 0 F))) = imported_nodes F"
    and "ti_edges (foldl import_line ?st0 (map row_line (forest_rows 0 F))) = imported_edges F"
    by (simp_all add: imported_nodes_def imported_edges_def)
  with lines ne show ?thesis by (simp add: importFromText_def Let_def)
qed

subsection \<open>Comment lines\<close>

text \<open>
  The import ignores every comment line, wherever it stands in the text: deleting all of
  them from a text does not change the document that the import builds.
\<close>

lemma dropWhile_all: "\<forall>x \<in> set l. P x \<Longrightarrow> dropWhile P l = []"
  by (induction l) auto

lemma is_space_CR: "is_space CR"
  by (simp add: is_space_def CR_def)

lemma split_lines_crlf:
  "LF \<notin> set l \<Longrightarrow> split_lines (l @ CR # LF # rest) = l # split_lines rest"
proof (induction l)
  case Nil
  show ?case by (simp add: CR_def LF_def)
next
  case (Cons c l)
  from Cons.prems have c: "c \<noteq> LF" and l: "LF \<notin> set l" by auto
  have IH: "split_lines (l @ CR # LF # rest) = l # split_lines rest" using Cons.IH [OF l] .
  obtain d cs where dcs: "l @ CR # LF # rest = d # cs" by (cases "l @ CR # LF # rest") auto
  have "d \<noteq> LF" using dcs l by (cases l) (auto simp: CR_def LF_def)
  with c have "split_lines (c # d # cs) = push_char c (split_lines (d # cs))" by auto
  then show ?case using dcs IH by (simp add: push_char_def)
qed

lemma split_lines_chomp:
  assumes "LF \<notin> set l"
  shows "split_lines (l @ LF # rest) = chomp l # split_lines rest"
proof (cases "l \<noteq> [] \<and> last l = CR")
  case True
  then obtain l0 where l: "l = l0 @ [CR]" by (metis append_butlast_last_id)
  with assms have "LF \<notin> set l0" by simp
  then have "split_lines (l0 @ CR # LF # rest) = l0 # split_lines rest"
    by (rule split_lines_crlf)
  then show ?thesis by (simp add: l chomp_def)
next
  case False
  then have "l = [] \<or> last l \<noteq> CR" by auto
  moreover have "chomp l = l" using False by (auto simp: chomp_def)
  ultimately show ?thesis using split_lines_line [OF assms] by simp
qed

lemma split_lines_single: "LF \<notin> set l \<Longrightarrow> split_lines l = [l]"
  by (induction l rule: split_lines.induct) (auto simp: push_char_def)

lemma split_lines_join:
  "ks \<noteq> [] \<Longrightarrow> \<forall>l \<in> set ks. LF \<notin> set l \<Longrightarrow>
     split_lines (join_with [LF] ks) = map chomp (butlast ks) @ [last ks]"
proof (induction ks)
  case Nil
  then show ?case by simp
next
  case (Cons l ks)
  show ?case
  proof (cases ks)
    case Nil
    with Cons.prems show ?thesis by (simp add: split_lines_single)
  next
    case (Cons k ks')
    with Cons.prems Cons.IH have "split_lines (join_with [LF] ks) = map chomp (butlast ks) @ [last ks]"
      by simp
    moreover have "join_with [LF] (l # ks) = l @ LF # join_with [LF] ks" using Cons by simp
    moreover have "LF \<notin> set l" using Cons.prems by simp
    ultimately show ?thesis using Cons by (simp add: split_lines_chomp)
  qed
qed

lemma split_lines_nonempty: "split_lines s \<noteq> []"
  by (induction s rule: split_lines.induct) (auto simp: push_char_def split: list.splits)

lemma split_lines_no_LF: "l \<in> set (split_lines s) \<Longrightarrow> LF \<notin> set l"
  by (induction s arbitrary: l rule: split_lines.induct)
     (auto simp: push_char_def split: list.splits if_splits)

lemma trim_chomp: "trim (chomp l) = trim l"
proof (cases "l \<noteq> [] \<and> last l = CR")
  case True
  then obtain l0 where l: "l = l0 @ [CR]" by (metis append_butlast_last_id)
  have "trim (l0 @ [CR]) = trim l0"
  proof (cases "\<forall>x \<in> set l0. is_space x")
    case True
    then have "dropWhile is_space l0 = []" by (rule dropWhile_all)
    with True show ?thesis
      by (simp add: trim_def dropWhile_append is_space_CR del: dropWhile_eq_Nil_conv)
  next
    case False
    then have "dropWhile is_space (l0 @ [CR]) = dropWhile is_space l0 @ [CR]"
      by (auto simp: dropWhile_append)
    then show ?thesis by (simp add: trim_def is_space_CR)
  qed
  then show ?thesis by (simp add: l chomp_def)
next
  case False
  then show ?thesis by (auto simp: chomp_def)
qed

lemma leading_chomp: "trim l \<noteq> [] \<Longrightarrow> leading_ws (chomp l) = leading_ws l"
proof (cases "l \<noteq> [] \<and> last l = CR")
  case True
  assume t: "trim l \<noteq> []"
  from True obtain l0 where l: "l = l0 @ [CR]" by (metis append_butlast_last_id)
  have "\<exists>x \<in> set l0. \<not> is_space x"
  proof (rule ccontr)
    assume "\<not> (\<exists>x \<in> set l0. \<not> is_space x)"
    then have "\<forall>x \<in> set l. is_space x" using is_space_CR by (simp add: l)
    then have "dropWhile is_space l = []" by (rule dropWhile_all)
    then have "trim l = []" by (simp add: trim_def del: dropWhile_eq_Nil_conv)
    with t show False by simp
  qed
  then have "takeWhile is_space (l0 @ [CR]) = takeWhile is_space l0"
    by (auto simp: takeWhile_append)
  then show ?thesis by (simp add: l chomp_def leading_ws_def)
next
  case False
  then show ?thesis by (auto simp: chomp_def)
qed

lemma import_line_chomp: "import_line st (chomp l) = import_line st l"
proof (cases "trim l = []")
  case True
  then show ?thesis by (simp add: import_line_def trim_chomp Let_def)
next
  case False
  then show ?thesis by (simp add: import_line_def trim_chomp leading_chomp Let_def)
qed

lemma foldl_import_chomp: "foldl import_line st (map chomp ls) = foldl import_line st ls"
  by (induction ls arbitrary: st) (simp_all add: import_line_chomp)

lemma kept_chomp:
  "filter (\<lambda>line. trim line \<noteq> [] \<and> \<not> startsWith (trim line) ''#'') (map chomp ls)
     = map chomp (filter (\<lambda>line. trim line \<noteq> [] \<and> \<not> startsWith (trim line) ''#'') ls)"
  by (induction ls) (simp_all add: trim_chomp)

lemma is_comment_code: "is_comment line = startsWith (trim line) ''#''"
proof (cases "dropWhile is_space line")
  case Nil
  then show ?thesis by (simp add: is_comment_def trim_def del: dropWhile_eq_Nil_conv)
next
  case (Cons c cs)
  then have c: "\<not> is_space c" by (metis hd_dropWhile list.distinct(1) list.sel(1))
  then have "dropWhile is_space (rev cs @ [c]) = dropWhile is_space (rev cs) @ [c]"
    by (auto simp: dropWhile_append)
  then have "trim line = c # rev (dropWhile is_space (rev cs))"
    using Cons by (simp add: trim_def)
  with Cons show ?thesis by (simp add: is_comment_def)
qed

lemma import_of_lines:
  "importFromText text =
     (if import_lines text = [] then None
      else let st = foldl import_line
                      \<lparr>ti_nodes = [import_root ''Mind Map''], ti_edges = [], ti_nodeId = 0,
                       ti_top = (''root'', -1), ti_below = []\<rparr> (import_lines text)
           in Some \<lparr>i_nodes = ti_nodes st, i_edges = ti_edges st\<rparr>)"
  by (simp add: importFromText_def Let_def)

lemma import_lines_without_comments:
  "import_lines (without_comments text) = [] \<longleftrightarrow> import_lines text = []"
  "foldl import_line st (import_lines (without_comments text)) = foldl import_line st (import_lines text)"
proof -
  define keep where "keep = (\<lambda>line. trim line \<noteq> [] \<and> \<not> startsWith (trim line) ''#'')"
  define ks where "ks = filter (\<lambda>line. \<not> is_comment line) (split_lines text)"
  have a: "import_lines text = filter keep ks"
    unfolding import_lines_def ks_def keep_def is_comment_code filter_filter
    by (rule filter_cong) auto
  have b: "import_lines (without_comments text) = map chomp (filter keep (butlast ks)) @ filter keep [last ks]"
    if "ks \<noteq> []"
  proof -
    have "\<forall>l \<in> set ks. LF \<notin> set l" unfolding ks_def using split_lines_no_LF by auto
    with that have "split_lines (join_with [LF] ks) = map chomp (butlast ks) @ [last ks]"
      by (rule split_lines_join)
    then show ?thesis
      unfolding import_lines_def without_comments_def ks_def [symmetric] keep_def [symmetric]
      using kept_chomp [of "butlast ks"] by (simp add: keep_def)
  qed
  have c: "filter keep ks = filter keep (butlast ks) @ filter keep [last ks]" if "ks \<noteq> []"
    using that by (metis append_butlast_last_id filter_append)
  have d: "import_lines (without_comments text) = []" "import_lines text = []" if "ks = []"
    using that a by (simp_all add: without_comments_def ks_def [symmetric] import_lines_def trim_def)
  show "import_lines (without_comments text) = [] \<longleftrightarrow> import_lines text = []"
    using a b c d by (cases "ks = []") auto
  show "foldl import_line st (import_lines (without_comments text)) = foldl import_line st (import_lines text)"
  proof (cases "ks = []")
    case True
    with d show ?thesis by simp
  next
    case False
    with a b c show ?thesis by (simp add: foldl_import_chomp)
  qed
qed

lemma importFromText_ignores_comment_lines:
  "importFromText (without_comments text) = importFromText text"
  unfolding import_of_lines by (simp add: import_lines_without_comments)

lemma without_comments_example:
  "without_comments (''A'' @ [LF] @ ''  # note'' @ [CR, LF] @ ''  B'' @ [LF] @ ''#end'') = ''A'' @ [LF] @ ''  B''"
  by code_simp

subsection \<open>The round trip\<close>

text \<open>
  Take a document that has a root, no edge into the root and a traversal from the root
  that ends, with the outline \<open>F\<close> of labels below the root, where \<open>F\<close> is not empty and
  every label is not empty, holds no line feed, neither starts nor ends with white space
  and does not start with \<open>#\<close>. Then the export writes the header and one line per node,
  indented by two spaces per level below the root's children, and importing that text
  gives a document with the same labels and the same nesting.
\<close>

lemma clean_outline_survives_text_roundtrip:
  assumes "list_all (\<lambda>e. e_to e \<noteq> ''root'') es"
    and "doc_outline ns es = Some F" and "F \<noteq> []" and "clean_forest F"
  shows "exportToPlainText ns es = Inr (export_header @ forest_text 0 F)
     \<and> reimport ns es = Some F"
proof -
  from assms(1) have "''root'' \<notin> e_to ` set es" by (auto simp: list_all_iff)
  then have ex: "exportToPlainText ns es = Inr (export_text F)"
    using assms(2) by (rule export_of_outline)
  have im: "importFromText (export_text F) = Some \<lparr>i_nodes = imported_nodes F, i_edges = imported_edges F\<rparr>"
    using assms(4) assms(3) by (rule importFromText_export)
  have "reimport ns es = Some F"
    unfolding reimport_def ex using im doc_outline_imported [of F] by simp
  with ex show ?thesis by (simp add: export_text_def)
qed

lemma clean_outline_survives_text_roundtrip_example:
  "list_all (\<lambda>e. e_to e \<noteq> ''root'') (edges only_child_doc)
   \<and> doc_outline (nodes only_child_doc) (edges only_child_doc) = Some [Outline ''A'' [Outline ''B'' []]]
   \<and> clean_forest [Outline ''A'' [Outline ''B'' []]]
   \<and> exportToPlainText (nodes only_child_doc) (edges only_child_doc)
        = Inr (export_header @ ''A'' @ [LF] @ ''  B'' @ [LF])
   \<and> reimport (nodes only_child_doc) (edges only_child_doc) = Some [Outline ''A'' [Outline ''B'' []]]"
proof -
  have h1: "list_all (\<lambda>e. e_to e \<noteq> ''root'') (edges only_child_doc)" by code_simp
  have h2: "doc_outline (nodes only_child_doc) (edges only_child_doc) = Some [Outline ''A'' [Outline ''B'' []]]"
    by code_simp
  have h3: "[Outline ''A'' [Outline ''B'' []]] \<noteq> []" by simp
  have h4: "clean_forest [Outline ''A'' [Outline ''B'' []]]" by code_simp
  have ft: "forest_text 0 [Outline ''A'' [Outline ''B'' []]] = ''A'' @ [LF] @ ''  B'' @ [LF]"
    by code_simp
  from clean_outline_survives_text_roundtrip [OF h1 h2 h3 h4]
  have "exportToPlainText (nodes only_child_doc) (edges only_child_doc)
          = Inr (export_header @ forest_text 0 [Outline ''A'' [Outline ''B'' []]])"
    and "reimport (nodes only_child_doc) (edges only_child_doc) = Some [Outline ''A'' [Outline ''B'' []]]"
    by blast+
  with h1 h2 h4 show ?thesis unfolding ft by blast
qed

text \<open>
  Claim C6. The claim fails on a generated document. The text of the only leaf has 31
  characters, so its display label is wrapped into two lines and the text itself is kept
  in \<open>originalText\<close>. The reconstruction of the outline reads \<open>originalText\<close> and gives the
  text back in one line; the plain-text export writes the display label, line break
  included, and the import reads two nodes where the document has one: neither the label
  text nor the number of nodes is preserved.
\<close>

theorem exportToPlainText_splits_wrapped_label:
  "map (\<lambda>n. (n_id n, n_label n, n_originalText n)) (nodes wrapped_doc)
     = [(''root'', ''Mind Map'', Some ''Mind Map''),
        (''task_0'', ''aaaaaaaaaaaaaaa'' @ [LF] @ ''bbbbbbbbbbbbbbb'', Some ''aaaaaaaaaaaaaaa bbbbbbbbbbbbbbb'')]
   \<and> reconstructText (nodes wrapped_doc) (edges wrapped_doc) = Some ''aaaaaaaaaaaaaaa bbbbbbbbbbbbbbb''
   \<and> exportToPlainText (nodes wrapped_doc) (edges wrapped_doc)
        = Inr (export_header @ ''aaaaaaaaaaaaaaa'' @ [LF] @ ''bbbbbbbbbbbbbbb'' @ [LF])
   \<and> doc_outline (nodes wrapped_doc) (edges wrapped_doc)
        = Some [Outline (''aaaaaaaaaaaaaaa'' @ [LF] @ ''bbbbbbbbbbbbbbb'') []]
   \<and> reimport (nodes wrapped_doc) (edges wrapped_doc)
        = Some [Outline ''aaaaaaaaaaaaaaa'' [], Outline ''bbbbbbbbbbbbbbb'' []]"
  by code_simp

end
